theory Spec2Isabelle
  imports Main "HOL-Library.Sublist"
begin

section \<open>JavaScript strings and values\<close>

text \<open>
  Strings are \<open>char list\<close>s. The string methods used by \<^verbatim>\<open>explorer.js\<close> and
  \<^verbatim>\<open>updater.js\<close> are written out below: \<^verbatim>\<open>toLowerCase\<close> (on the ASCII letters),
  \<^verbatim>\<open>includes\<close>, \<^verbatim>\<open>startsWith\<close>, \<^verbatim>\<open>endsWith\<close>, \<^verbatim>\<open>split\<close> on one character and
  \<^verbatim>\<open>join\<close>.
\<close>

definition lower_char :: "char \<Rightarrow> char" where
  "lower_char c =
     (let n = (of_char c :: nat) in if 65 \<le> n \<and> n \<le> 90 then char_of (n + 32) else c)"

definition upper_char :: "char \<Rightarrow> char" where
  "upper_char c =
     (let n = (of_char c :: nat) in if 97 \<le> n \<and> n \<le> 122 then char_of (n - 32) else c)"

definition toLowerCase :: "string \<Rightarrow> string" where
  "toLowerCase s = map lower_char s"

definition startsWith :: "string \<Rightarrow> string \<Rightarrow> bool" where
  "startsWith s t = prefix t s"

definition endsWith :: "string \<Rightarrow> string \<Rightarrow> bool" where
  "endsWith s t = suffix t s"

text \<open>\<^verbatim>\<open>s.includes(t)\<close>: \<open>t\<close> occurs in \<open>s\<close> as a contiguous substring.\<close>

fun str_includes :: "string \<Rightarrow> string \<Rightarrow> bool" where
  "str_includes [] t = (t = [])"
| "str_includes (c # cs) t = (prefix t (c # cs) \<or> str_includes cs t)"

text \<open>
  \<^verbatim>\<open>s.split(sep)\<close> for a one-character separator: the pieces between the separators,
  empty pieces included, so that the empty string splits into one empty piece.
\<close>

fun split_acc :: "char \<Rightarrow> string \<Rightarrow> string \<Rightarrow> string list" where
  "split_acc sep acc [] = [rev acc]"
| "split_acc sep acc (c # cs) =
     (if c = sep then rev acc # split_acc sep [] cs else split_acc sep (c # acc) cs)"

definition split :: "char \<Rightarrow> string \<Rightarrow> string list" where
  "split sep s = split_acc sep [] s"

text \<open>\<^verbatim>\<open>parts.join(sep)\<close>.\<close>

fun join :: "char \<Rightarrow> string list \<Rightarrow> string" where
  "join sep [] = []"
| "join sep [p] = p"
| "join sep (p # q # ps) = p @ sep # join sep (q # ps)"

definition is_digit :: "char \<Rightarrow> bool" where
  "is_digit c = (let n = (of_char c :: nat) in 48 \<le> n \<and> n \<le> 57)"

definition is_hex_lower :: "char \<Rightarrow> bool" where
  "is_hex_lower c = (let n = (of_char c :: nat) in (48 \<le> n \<and> n \<le> 57) \<or> (97 \<le> n \<and> n \<le> 102))"

text \<open>
  The values \<^verbatim>\<open>JSON.parse\<close> produces, for the operator's \<^verbatim>\<open>customData\<close> and
  \<^verbatim>\<open>customTestData\<close>. A number is kept as an integer: the merge only tests such a value
  for truthiness, where only zero matters.
\<close>

datatype json =
    JNull
  | JBool bool
  | JNum int
  | JStr string
  | JArr "json list"
  | JObj "(string \<times> json) list"

text \<open>
  The truthiness of a property read: an absent property reads as \<^verbatim>\<open>undefined\<close>
  (\<open>None\<close>), which is falsy, as are \<^verbatim>\<open>null\<close>, \<^verbatim>\<open>false\<close>, \<^verbatim>\<open>0\<close> and \<^verbatim>\<open>""\<close>; arrays and
  objects are truthy, the empty ones too.
\<close>

fun truthy :: "json option \<Rightarrow> bool" where
  "truthy None = False"
| "truthy (Some JNull) = False"
| "truthy (Some (JBool b)) = b"
| "truthy (Some (JNum n)) = (n \<noteq> 0)"
| "truthy (Some (JStr s)) = (s \<noteq> [])"
| "truthy (Some (JArr xs)) = True"
| "truthy (Some (JObj kvs)) = True"

section \<open>The exploration engine (\<^verbatim>\<open>lib/explorer.js\<close>)\<close>

subsection \<open>Records\<close>

text \<open>
  The object \<^verbatim>\<open>extractPageData\<close> reads in the browser (\<open>pageData\<close>) and the record it
  returns (\<open>pageRecord\<close>) share \<^verbatim>\<open>title\<close>, \<^verbatim>\<open>heading\<close> and \<^verbatim>\<open>description\<close>.
\<close>

record pageMeta =
  title :: string
  heading :: string
  description :: string

record pageData = pageMeta +
  bodyText :: string

record pageRecord = pageMeta +
  url :: string
  path :: string
  pageName :: string
  pageType :: string
  preview :: string

record fieldRecord =
  field_type :: string
  field_name :: string
  field_id :: string
  placeholder :: string
  required :: bool
  label :: string

record buttonRecord =
  button_text :: string
  button_type :: string

record formRecord =
  formIndex :: nat
  action :: string
  form_method :: string
  form_fields :: "fieldRecord list"
  buttons :: "buttonRecord list"
  fieldCount :: nat

record elementRecord =
  element_type :: string
  element_text :: string
  element_id :: string
  classes :: string

subsection \<open>Page names and page types\<close>

definition capitalize :: "string \<Rightarrow> string" where
  "capitalize str = (case str of [] \<Rightarrow> [] | c # cs \<Rightarrow> upper_char c # cs)"

text \<open>\<^verbatim>\<open>/^\d+$/.test(s)\<close> and \<^verbatim>\<open>/^[0-9a-f]{8}-/.test(s)\<close>.\<close>

definition all_digits :: "string \<Rightarrow> bool" where
  "all_digits s = (s \<noteq> [] \<and> list_all is_digit s)"

definition uuid_like :: "string \<Rightarrow> bool" where
  "uuid_like s = (9 \<le> length s \<and> list_all is_hex_lower (take 8 s) \<and> s ! 8 = CHR ''-'')"

text \<open>\<^verbatim>\<open>/\d+$/.test(s)\<close>: the string ends in a digit.\<close>

definition ends_in_digits :: "string \<Rightarrow> bool" where
  "ends_in_digits s = (s \<noteq> [] \<and> is_digit (last s))"

definition generatePageName :: "string \<Rightarrow> string \<Rightarrow> string" where
  "generatePageName urlPath ttl =
     (if urlPath = ''/'' \<or> urlPath = [] then ''Homepage''
      else if ttl \<noteq> [] \<and> length ttl < 50 then ttl
      else
        (let pathParts = filter (\<lambda>p. p \<noteq> []) (split CHR ''/'' urlPath) in
         if pathParts = [] then ''Homepage''
         else
           (let lastPart = last pathParts in
            if all_digits lastPart \<or> uuid_like lastPart then
              (if 2 \<le> length pathParts
               then capitalize (pathParts ! (length pathParts - 2)) @ '' Detail''
               else ''Detail Page'')
            else capitalize (map (\<lambda>c. if c = CHR ''-'' \<or> c = CHR ''_'' then CHR '' '' else c)
                               lastPart))))"

text \<open>The text \<^verbatim>\<open>classifyPage\<close> matches its keywords against.\<close>

definition lowerTitle :: "pageData \<Rightarrow> string \<Rightarrow> string" where
  "lowerTitle d p = toLowerCase (title d @ '' '' @ heading d @ '' '' @ p)"

definition classifyPage :: "pageData \<Rightarrow> string \<Rightarrow> string" where
  "classifyPage d p =
     (let lt = lowerTitle d p in
      if str_includes lt ''login'' \<or> str_includes lt ''sign in'' then ''login''
      else if str_includes lt ''signup'' \<or> str_includes lt ''register''
              \<or> str_includes lt ''sign up'' then ''signup''
      else if str_includes lt ''dashboard'' then ''dashboard''
      else if str_includes lt ''profile'' \<or> str_includes lt ''account'' then ''profile''
      else if str_includes lt ''contact'' then ''contact''
      else if str_includes lt ''about'' then ''about''
      else if p = ''/'' \<or> p = [] then ''homepage''
      else if ends_in_digits p \<or> str_includes p ''detail'' then ''detail''
      else if str_includes p ''list'' \<or> str_includes (bodyText d) ''showing''
              \<or> str_includes (bodyText d) ''results'' then ''list''
      else ''page'')"

subsection \<open>The browser and the URL parser\<close>

text \<open>
  \<^verbatim>\<open>new URL(s)\<close> belongs to the platform, so the parser is a parameter of the model:
  \<open>None\<close> when the constructor throws, otherwise the three components the code reads.
\<close>

record parsedUrl =
  hostname :: string
  pathname :: string
  hash :: string

type_synonym urlParser = "string \<Rightarrow> parsedUrl option"

text \<open>A call into the browser returns or throws.\<close>

datatype 'a outcome = Throws | Returns 'a

text \<open>
  What the browser does with one URL, in the order \<^verbatim>\<open>explorePage\<close> asks for it:
  \<open>response\<close> is the value of \<^verbatim>\<open>page.goto(...).catch(() => null)\<close> (\<open>None\<close> for a rejected
  navigation or no response, otherwise the status code), \<open>settles\<close> tells whether
  \<^verbatim>\<open>page.waitForTimeout\<close> resolves, and the four \<open>dom\<close> fields are what
  \<^verbatim>\<open>page.evaluate\<close> finds for the page data, the forms, the buttons and clickable
  elements, and the \<^verbatim>\<open>href\<close> of every anchor.
\<close>

record browserPage =
  response :: "int option"
  settles :: bool
  domData :: "pageData outcome"
  domForms :: "formRecord list outcome"
  domElements :: "elementRecord list outcome"
  domHrefs :: "string list outcome"

type_synonym browser = "string \<Rightarrow> browserPage"

subsection \<open>The engine's state\<close>

datatype frontierEntry = Entry (entry_url: string) (depth: int)

text \<open>
  \<open>visited\<close> is the JavaScript \<^verbatim>\<open>Set\<close>, kept in insertion order without duplicates;
  \<open>toVisit\<close> is the array used as a queue. \<open>exploreLog\<close> is the sequence of calls of
  \<^verbatim>\<open>explorePage\<close>, the lines \<^verbatim>\<open>Exploring [depth d]: url\<close> of the verbose output.
\<close>

record engine =
  targetUrl :: string
  baseDomain :: string
  maxDepth :: int
  maxPages :: int
  visited :: "string list"
  toVisit :: "frontierEntry list"
  discoveredPages :: "pageRecord list"
  discoveredForms :: "formRecord list"
  interactiveElements :: "elementRecord list"
  exploreLog :: "(string \<times> int) list"

text \<open>\<^verbatim>\<open>set.add(x)\<close> and \<^verbatim>\<open>set.size\<close>.\<close>

definition set_add :: "string \<Rightarrow> string list \<Rightarrow> string list" where
  "set_add x xs = (if x \<in> set xs then xs else xs @ [x])"

definition set_size :: "string list \<Rightarrow> int" where
  "set_size xs = int (length xs)"

text \<open>
  The configuration: a missing option and \<^verbatim>\<open>NaN\<close> (what \<^verbatim>\<open>parseInt\<close> gives for a
  malformed argument) are \<open>None\<close>. \<^verbatim>\<open>config.maxDepth || 3\<close> replaces every falsy value,
  zero included, by the default.
\<close>

record config =
  cfg_targetUrl :: string
  cfg_maxDepth :: "int option"
  cfg_maxPages :: "int option"

definition or_default :: "int option \<Rightarrow> int \<Rightarrow> int" where
  "or_default v d = (case v of None \<Rightarrow> d | Some n \<Rightarrow> if n = 0 then d else n)"

text \<open>The constructor; \<open>None\<close> when \<^verbatim>\<open>new URL(this.targetUrl)\<close> throws.\<close>

definition newEngine :: "urlParser \<Rightarrow> config \<Rightarrow> engine option" where
  "newEngine P cfg =
     (case P (cfg_targetUrl cfg) of
        None \<Rightarrow> None
      | Some baseUrl \<Rightarrow>
          Some \<lparr> targetUrl = cfg_targetUrl cfg,
                 baseDomain = hostname baseUrl,
                 maxDepth = or_default (cfg_maxDepth cfg) 3,
                 maxPages = or_default (cfg_maxPages cfg) 50,
                 visited = [],
                 toVisit = [],
                 discoveredPages = [],
                 discoveredForms = [],
                 interactiveElements = [],
                 exploreLog = [] \<rparr>)"

subsection \<open>Extraction\<close>

definition extractPageData :: "urlParser \<Rightarrow> browserPage \<Rightarrow> string \<Rightarrow> pageRecord outcome" where
  "extractPageData P pg u =
     (case domData pg of
        Throws \<Rightarrow> Throws
      | Returns d \<Rightarrow>
          (case P u of
             None \<Rightarrow> Throws
           | Some parsed \<Rightarrow>
               (let urlPath = pathname parsed in
                Returns \<lparr> title = title d,
                          heading = heading d,
                          description = description d,
                          url = u,
                          path = urlPath,
                          pageName = generatePageName urlPath (title d),
                          pageType = classifyPage d urlPath,
                          preview = bodyText d \<rparr>)))"

definition extractForms :: "browserPage \<Rightarrow> formRecord list outcome" where
  "extractForms pg = domForms pg"

definition extractInteractiveElements :: "browserPage \<Rightarrow> elementRecord list outcome" where
  "extractInteractiveElements pg =
     (case domElements pg of Throws \<Rightarrow> Throws | Returns es \<Rightarrow> Returns (take 20 es))"

text \<open>\<^verbatim>\<open>[...new Set(links)]\<close>: the first occurrence of every element, in order.\<close>

fun dedup :: "string list \<Rightarrow> string list \<Rightarrow> string list" where
  "dedup seen [] = []"
| "dedup seen (x # xs) = (if x \<in> set seen then dedup seen xs else x # dedup (x # seen) xs)"

definition extractLinks :: "browserPage \<Rightarrow> string list outcome" where
  "extractLinks pg =
     (case domHrefs pg of
        Throws \<Rightarrow> Throws
      | Returns hrefs \<Rightarrow>
          Returns (dedup []
            (filter (\<lambda>href. href \<noteq> [] \<and> \<not> startsWith href ''javascript:''
                              \<and> \<not> startsWith href ''mailto:'' \<and> \<not> startsWith href ''tel:'')
                    hrefs)))"

subsection \<open>Which links are followed\<close>

definition skipExtensions :: "string list" where
  "skipExtensions =
     [''.pdf'', ''.jpg'', ''.jpeg'', ''.png'', ''.gif'', ''.svg'', ''.zip'', ''.exe'', ''.dmg'']"

text \<open>\<^verbatim>\<open>this.visited.values().next().value || this.targetUrl\<close>.\<close>

definition firstVisited :: "engine \<Rightarrow> string" where
  "firstVisited s = (case visited s of [] \<Rightarrow> targetUrl s | v # vs \<Rightarrow> if v = [] then targetUrl s else v)"

definition shouldFollowLink :: "urlParser \<Rightarrow> engine \<Rightarrow> string \<Rightarrow> bool" where
  "shouldFollowLink P s link =
     (case P link of
        None \<Rightarrow> False
      | Some linkUrl \<Rightarrow>
          if hostname linkUrl \<noteq> baseDomain s then False
          else if list_ex (\<lambda>ext. endsWith (toLowerCase (pathname linkUrl)) ext) skipExtensions
            then False
          else
            (case P (firstVisited s) of
               None \<Rightarrow> False
             | Some firstUrl \<Rightarrow>
                 if pathname linkUrl = pathname firstUrl \<and> hash linkUrl \<noteq> [] then False
                 else True))"

subsection \<open>Exploring one page\<close>

text \<open>The \<^verbatim>\<open>for\<close> loop over the links of a page.\<close>

fun followLinks :: "urlParser \<Rightarrow> string list \<Rightarrow> int \<Rightarrow> engine \<Rightarrow> engine" where
  "followLinks P [] d s = s"
| "followLinks P (link # links) d s =
     followLinks P links d
       (if shouldFollowLink P s link \<and> link \<notin> set (visited s)
        then s\<lparr>toVisit := toVisit s @ [Entry link (d + 1)]\<rparr>
        else s)"

text \<open>
  \<^verbatim>\<open>explorePage\<close>: every \<^verbatim>\<open>return\<close> and every throw inside the \<^verbatim>\<open>try\<close> leaves the state
  as it is at that point; the \<^verbatim>\<open>catch\<close> only logs. The screenshot is taken inside a
  \<^verbatim>\<open>try\<close> of its own and changes nothing here.
\<close>

definition explorePage :: "urlParser \<Rightarrow> browser \<Rightarrow> string \<Rightarrow> int \<Rightarrow> engine \<Rightarrow> engine" where
  "explorePage P B u d s =
     (let s1 = s\<lparr>visited := set_add u (visited s), exploreLog := exploreLog s @ [(u, d)]\<rparr>;
          pg = B u
      in case response pg of
           None \<Rightarrow> s1
         | Some status \<Rightarrow>
             if status \<ge> 400 then s1
             else if \<not> settles pg then s1
             else
               (case extractPageData P pg u of
                  Throws \<Rightarrow> s1
                | Returns pd \<Rightarrow>
                    (let s2 = s1\<lparr>discoveredPages := discoveredPages s1 @ [pd]\<rparr> in
                     case extractForms pg of
                       Throws \<Rightarrow> s2
                     | Returns fs \<Rightarrow>
                         (let s3 = s2\<lparr>discoveredForms := discoveredForms s2 @ fs\<rparr> in
                          case extractInteractiveElements pg of
                            Throws \<Rightarrow> s3
                          | Returns es \<Rightarrow>
                              (let s4 = s3\<lparr>interactiveElements := interactiveElements s3 @ es\<rparr> in
                               case extractLinks pg of
                                 Throws \<Rightarrow> s4
                               | Returns links \<Rightarrow> followLinks P links d s4)))))"

subsection \<open>The crawl loop\<close>

definition crawl_cond :: "engine \<Rightarrow> bool" where
  "crawl_cond s = (toVisit s \<noteq> [] \<and> set_size (visited s) < maxPages s)"

text \<open>One pass through the body of the \<^verbatim>\<open>while\<close> loop.\<close>

definition crawl_step :: "urlParser \<Rightarrow> browser \<Rightarrow> engine \<Rightarrow> engine" where
  "crawl_step P B s =
     (case toVisit s of
        [] \<Rightarrow> s
      | current # rest \<Rightarrow>
          (let s' = s\<lparr>toVisit := rest\<rparr> in
           if entry_url current \<in> set (visited s') \<or> depth current > maxDepth s' then s'
           else explorePage P B (entry_url current) (depth current) s'))"

text \<open>What \<^verbatim>\<open>explorePage\<close> leaves alone, and what it does to the visited set.\<close>

lemma followLinks_frame:
  "visited (followLinks P links d s) = visited s
   \<and> maxPages (followLinks P links d s) = maxPages s
   \<and> maxDepth (followLinks P links d s) = maxDepth s
   \<and> targetUrl (followLinks P links d s) = targetUrl s
   \<and> baseDomain (followLinks P links d s) = baseDomain s
   \<and> discoveredPages (followLinks P links d s) = discoveredPages s
   \<and> discoveredForms (followLinks P links d s) = discoveredForms s
   \<and> interactiveElements (followLinks P links d s) = interactiveElements s
   \<and> exploreLog (followLinks P links d s) = exploreLog s"
  by (induction links arbitrary: s) simp_all

lemma shouldFollowLink_cong:
  assumes "visited s' = visited s" and "targetUrl s' = targetUrl s"
    and "baseDomain s' = baseDomain s"
  shows "shouldFollowLink P s' link = shouldFollowLink P s link"
  unfolding shouldFollowLink_def firstVisited_def assms by (rule refl)

lemma followLinks_toVisit:
  "toVisit (followLinks P links d s) =
     toVisit s @ map (\<lambda>link. Entry link (d + 1))
                    (filter (\<lambda>link. shouldFollowLink P s link \<and> link \<notin> set (visited s)) links)"
proof (induction links arbitrary: s)
  case Nil
  show ?case by simp
next
  case (Cons link links)
  let ?s' = "s\<lparr>toVisit := toVisit s @ [Entry link (d + 1)]\<rparr>"
  have same: "\<And>l. shouldFollowLink P ?s' l = shouldFollowLink P s l"
    by (rule shouldFollowLink_cong) simp_all
  show ?case
    by (simp add: Cons.IH same)
qed

lemma explorePage_visited:
  "visited (explorePage P B u d s) = set_add u (visited s)"
  by (simp add: explorePage_def Let_def followLinks_frame
           split: option.splits outcome.splits)

lemma explorePage_exploreLog:
  "exploreLog (explorePage P B u d s) = exploreLog s @ [(u, d)]"
  by (simp add: explorePage_def Let_def followLinks_frame
           split: option.splits outcome.splits)

lemma explorePage_config:
  "maxPages (explorePage P B u d s) = maxPages s
   \<and> maxDepth (explorePage P B u d s) = maxDepth s
   \<and> targetUrl (explorePage P B u d s) = targetUrl s
   \<and> baseDomain (explorePage P B u d s) = baseDomain s"
  by (simp add: explorePage_def Let_def followLinks_frame
           split: option.splits outcome.splits)

lemma crawl_step_maxPages: "maxPages (crawl_step P B s) = maxPages s"
  by (simp add: crawl_step_def Let_def explorePage_config split: list.splits)

lemma crawl_step_decreases:
  assumes "crawl_cond s"
  shows "nat (maxPages s - set_size (visited (crawl_step P B s)))
           < nat (maxPages s - set_size (visited s))
         \<or> (visited (crawl_step P B s) = visited s
            \<and> length (toVisit (crawl_step P B s)) < length (toVisit s))"
proof (cases "toVisit s")
  case Nil
  with assms show ?thesis by (simp add: crawl_cond_def)
next
  case (Cons current rest)
  show ?thesis
  proof (cases "entry_url current \<in> set (visited s) \<or> depth current > maxDepth s")
    case True
    with Cons show ?thesis by (auto simp: crawl_step_def Let_def)
  next
    case False
    then have "visited (crawl_step P B s) = visited s @ [entry_url current]"
      using Cons by (simp add: crawl_step_def Let_def explorePage_visited set_add_def)
    with assms show ?thesis by (simp add: crawl_cond_def set_size_def)
  qed
qed

text \<open>
  The \<^verbatim>\<open>while\<close> loop of \<^verbatim>\<open>explore\<close>. It is total: a pass either visits a new URL, of
  which the page cap allows only so many, or shortens the queue.
\<close>

function crawl :: "urlParser \<Rightarrow> browser \<Rightarrow> engine \<Rightarrow> engine" where
  "crawl P B s = (if crawl_cond s then crawl P B (crawl_step P B s) else s)"
  by pat_completeness auto
termination
proof (relation "measures [\<lambda>(P, B, s). nat (maxPages s - set_size (visited s)),
                           \<lambda>(P, B, s). length (toVisit s)]")
  show "wf (measures [\<lambda>(P, B, s). nat (maxPages s - set_size (visited s)),
                      \<lambda>(P, B, s). length (toVisit s)])"
    by simp
next
  fix P :: urlParser and B :: browser and s :: engine
  assume "crawl_cond s"
  from crawl_step_decreases [OF this, of P B]
  show "((P, B, crawl_step P B s), (P, B, s))
          \<in> measures [\<lambda>(P, B, s). nat (maxPages s - set_size (visited s)),
                      \<lambda>(P, B, s). length (toVisit s)]"
    by (auto simp: crawl_step_maxPages)
qed

declare crawl.simps [simp del]

text \<open>
  \<^verbatim>\<open>explore\<close>, together with the constructor: the start entry, then the loop. \<open>None\<close>
  when the constructor throws on the target URL. The browser is taken to launch and to
  close without an error; the result object of \<^verbatim>\<open>explore\<close> is read off the final state
  (\<^verbatim>\<open>pagesExplored\<close> is the size of the visited set).
\<close>

definition startState :: "engine \<Rightarrow> engine" where
  "startState e = e\<lparr>toVisit := toVisit e @ [Entry (targetUrl e) 0]\<rparr>"

definition explore :: "urlParser \<Rightarrow> browser \<Rightarrow> config \<Rightarrow> engine option" where
  "explore P B cfg =
     (case newEngine P cfg of
        None \<Rightarrow> None
      | Some e \<Rightarrow> Some (crawl P B (startState e)))"

subsection \<open>The states of a run and the loop's invariants\<close>

text \<open>
  \<open>run_state P B s0 s\<close>: the loop started in \<open>s0\<close> stands at the test of its condition
  in state \<open>s\<close>.
\<close>

inductive run_state :: "urlParser \<Rightarrow> browser \<Rightarrow> engine \<Rightarrow> engine \<Rightarrow> bool"
  for P :: urlParser and B :: browser and s0 :: engine where
  start: "run_state P B s0 s0"
| step: "run_state P B s0 s \<Longrightarrow> crawl_cond s \<Longrightarrow> run_state P B s0 (crawl_step P B s)"

lemma crawl_preserves:
  "I s \<Longrightarrow> (\<And>t. I t \<Longrightarrow> crawl_cond t \<Longrightarrow> I (crawl_step P B t)) \<Longrightarrow> I (crawl P B s)"
proof (induction P B s rule: crawl.induct)
  case (1 P B s)
  show ?case
  proof (cases "crawl_cond s")
    case True
    then have "I (crawl_step P B s)" using "1.prems" by blast
    then have "I (crawl P B (crawl_step P B s))"
      using "1.IH" [OF True] "1.prems"(2) by blast
    then show ?thesis using True by (simp add: crawl.simps [of P B s])
  next
    case False
    then show ?thesis using "1.prems"(1) by (simp add: crawl.simps [of P B s])
  qed
qed

lemma crawl_stops: "\<not> crawl_cond (crawl P B s)"
proof (induction P B s rule: crawl.induct)
  case (1 P B s)
  then show ?case by (cases "crawl_cond s") (simp_all add: crawl.simps [of P B s])
qed

lemma crawl_run_state: "run_state P B s0 (crawl P B s0)"
  by (rule crawl_preserves [where I = "run_state P B s0"]) (auto intro: run_state.intros)

lemma run_state_invariant:
  assumes "run_state P B s0 s" and "I s0"
    and "\<And>t. I t \<Longrightarrow> crawl_cond t \<Longrightarrow> I (crawl_step P B t)"
  shows "I s"
  using assms by (induction rule: run_state.induct) auto

text \<open>
  The visited set has no duplicates and stays within the page cap, the explored pages are
  the visited ones in order, and none was explored deeper than the depth limit.
\<close>

definition bound_inv :: "engine \<Rightarrow> bool" where
  "bound_inv s =
     (distinct (visited s) \<and> set_size (visited s) \<le> max 0 (maxPages s)
      \<and> map fst (exploreLog s) = visited s
      \<and> list_all (\<lambda>(u, d). d \<le> maxDepth s) (exploreLog s))"

lemma crawl_step_cases:
  assumes "crawl_cond s"
  obtains (skip) current rest where "toVisit s = current # rest"
      and "entry_url current \<in> set (visited s) \<or> depth current > maxDepth s"
      and "crawl_step P B s = s\<lparr>toVisit := rest\<rparr>"
    | (visit) current rest where "toVisit s = current # rest"
      and "entry_url current \<notin> set (visited s)" and "depth current \<le> maxDepth s"
      and "crawl_step P B s
             = explorePage P B (entry_url current) (depth current) (s\<lparr>toVisit := rest\<rparr>)"
proof -
  from assms obtain current rest where q: "toVisit s = current # rest"
    by (cases "toVisit s") (auto simp: crawl_cond_def)
  show thesis
  proof (cases "entry_url current \<in> set (visited s) \<or> depth current > maxDepth s")
    case True
    with q show thesis by (intro skip [of current rest]) (auto simp: crawl_step_def Let_def)
  next
    case False
    with q show thesis by (intro visit [of current rest]) (auto simp: crawl_step_def Let_def)
  qed
qed

lemma bound_inv_step:
  assumes "bound_inv s" and "crawl_cond s"
  shows "bound_inv (crawl_step P B s)"
  using assms(2)
proof (cases rule: crawl_step_cases [where P = P and B = B])
  case (skip current rest)
  with assms(1) show ?thesis by (simp add: bound_inv_def)
next
  case (visit current rest)
  from assms(2) have "set_size (visited s) < maxPages s" by (simp add: crawl_cond_def)
  with assms(1) visit show ?thesis
    by (simp add: bound_inv_def explorePage_visited explorePage_exploreLog
          explorePage_config set_add_def set_size_def)
qed

text \<open>
  The depths of the explored pages followed by those waiting in the queue never decrease,
  and the queue spans at most two adjacent depths.
\<close>

definition bfs_inv :: "engine \<Rightarrow> bool" where
  "bfs_inv s =
     (sorted (map snd (exploreLog s) @ map depth (toVisit s))
      \<and> list_all (\<lambda>e. depth e \<le> depth (hd (toVisit s)) + 1) (toVisit s))"

lemma explorePage_toVisit:
  "\<exists>links. toVisit (explorePage P B u d s) = toVisit s @ map (\<lambda>link. Entry link (d + 1)) links"
proof -
  have triv: "\<And>q. \<exists>links. q = q @ map (\<lambda>link. Entry link (d + 1)) links"
    by (rule exI [of _ "[]"]) simp
  show ?thesis
    by (auto simp: explorePage_def Let_def followLinks_toVisit triv
           split: option.splits outcome.splits)
qed

lemma bfs_inv_step:
  assumes "bfs_inv s" and "crawl_cond s"
  shows "bfs_inv (crawl_step P B s)"
  using assms(2)
proof (cases rule: crawl_step_cases [where P = P and B = B])
  case (skip current rest)
  from assms(1) skip(1) have srt: "sorted (map snd (exploreLog s) @ depth current # map depth rest)"
    and near: "list_all (\<lambda>e. depth e \<le> depth current + 1) rest"
    by (simp_all add: bfs_inv_def)
  from srt have "sorted (map snd (exploreLog s) @ map depth rest)"
    by (auto simp: sorted_append)
  moreover have "list_all (\<lambda>e. depth e \<le> depth (hd rest) + 1) rest"
  proof (cases rest)
    case Nil
    then show ?thesis by simp
  next
    case (Cons r rs)
    with srt have "depth current \<le> depth r" by (auto simp: sorted_append)
    with near Cons show ?thesis by (auto simp: list_all_iff)
  qed
  ultimately show ?thesis using skip(3) by (simp add: bfs_inv_def)
next
  case (visit current rest)
  let ?d = "depth current"
  from assms(1) visit(1) have srt: "sorted (map snd (exploreLog s) @ ?d # map depth rest)"
    and near: "list_all (\<lambda>e. depth e \<le> ?d + 1) rest"
    by (simp_all add: bfs_inv_def)
  obtain links where tv: "toVisit (crawl_step P B s) = rest @ map (\<lambda>link. Entry link (?d + 1)) links"
    using explorePage_toVisit [of P B "entry_url current" ?d "s\<lparr>toVisit := rest\<rparr>"] visit(4)
    by auto
  have lg: "exploreLog (crawl_step P B s) = exploreLog s @ [(entry_url current, ?d)]"
    by (simp add: visit(4) explorePage_exploreLog)
  have const: "sorted (map (\<lambda>link. ?d + 1) links)"
    by (induction links) auto
  have "sorted (map snd (exploreLog s) @ [?d] @ map depth rest @ map (\<lambda>link. ?d + 1) links)"
    using srt near const by (auto simp: sorted_append list_all_iff)
  then have one: "sorted (map snd (exploreLog (crawl_step P B s)) @ map depth (toVisit (crawl_step P B s)))"
    by (simp add: lg tv comp_def)
  have two: "list_all (\<lambda>e. depth e \<le> depth (hd (toVisit (crawl_step P B s))) + 1) (toVisit (crawl_step P B s))"
  proof (cases rest)
    case Nil
    then show ?thesis by (cases links) (auto simp: tv list_all_iff)
  next
    case (Cons r rs)
    with srt have "?d \<le> depth r" by (auto simp: sorted_append)
    with near Cons show ?thesis by (auto simp: tv list_all_iff)
  qed
  from one two show ?thesis by (simp add: bfs_inv_def)
qed

lemma run_state_config:
  assumes "run_state P B s0 s"
  shows "maxPages s = maxPages s0 \<and> maxDepth s = maxDepth s0
         \<and> targetUrl s = targetUrl s0 \<and> baseDomain s = baseDomain s0"
  using assms
proof (induction rule: run_state.induct)
  case start
  show ?case by simp
next
  case (step s)
  from step.hyps(2) show ?case
    by (cases rule: crawl_step_cases [where P = P and B = B])
       (simp_all add: step.IH explorePage_config)
qed

lemma crawl_of_run_state:
  assumes "run_state P B s0 s"
  shows "crawl P B s = crawl P B s0"
  using assms
proof (induction rule: run_state.induct)
  case start
  show ?case by simp
next
  case (step s)
  then show ?case by (simp add: crawl.simps [of P B s])
qed

lemma run_state_final:
  assumes "run_state P B s0 s"
  shows "(\<not> crawl_cond s) = (s = crawl P B s0)"
proof
  assume "\<not> crawl_cond s"
  then have "crawl P B s = s" by (simp add: crawl.simps [of P B s])
  with crawl_of_run_state [OF assms] show "s = crawl P B s0" by simp
next
  assume "s = crawl P B s0"
  then show "\<not> crawl_cond s" by (simp add: crawl_stops)
qed

lemma startState_newEngine:
  assumes "newEngine P cfg = Some e"
  shows "startState e = e\<lparr>toVisit := [Entry (targetUrl e) 0]\<rparr>"
    and "visited e = []" and "exploreLog e = []"
  using assms by (auto simp: newEngine_def startState_def split: option.splits)

lemma bound_inv_run:
  assumes "newEngine P cfg = Some e" and "run_state P B (startState e) s"
  shows "bound_inv s"
proof (rule run_state_invariant [OF assms(2)])
  show "bound_inv (startState e)"
    by (simp add: startState_newEngine [OF assms(1)] bound_inv_def set_size_def)
qed (rule bound_inv_step)

lemma bfs_inv_run:
  assumes "newEngine P cfg = Some e" and "run_state P B (startState e) s"
  shows "bfs_inv s"
proof (rule run_state_invariant [OF assms(2)])
  show "bfs_inv (startState e)"
    by (simp add: startState_newEngine [OF assms(1)] bfs_inv_def)
qed (rule bfs_inv_step)

text \<open>
  The URLs reachable from the start URL by following anchors, whatever the depth and
  whether or not the pages load.
\<close>

inductive_set reachable :: "browser \<Rightarrow> string \<Rightarrow> string set"
  for B :: browser and start :: string where
  start: "start \<in> reachable B start"
| link: "u \<in> reachable B start \<Longrightarrow> domHrefs (B u) = Returns hrefs \<Longrightarrow> l \<in> set hrefs
         \<Longrightarrow> l \<in> reachable B start"

lemma set_dedup: "set (dedup seen xs) = set xs - set seen"
  by (induction seen xs rule: dedup.induct) auto

lemma extractLinks_hrefs:
  assumes "extractLinks pg = Returns links" and "l \<in> set links"
  shows "\<exists>hrefs. domHrefs pg = Returns hrefs \<and> l \<in> set hrefs"
  using assms by (auto simp: extractLinks_def set_dedup split: outcome.splits)

text \<open>
  The links of a page that reach the loop over the links: those of a page that loaded and
  whose extraction went through, none otherwise.
\<close>

definition pageLinks :: "urlParser \<Rightarrow> browser \<Rightarrow> string \<Rightarrow> string list" where
  "pageLinks P B u =
     (case response (B u) of
        None \<Rightarrow> []
      | Some status \<Rightarrow>
          if status \<ge> 400 \<or> \<not> settles (B u) then []
          else
            (case extractPageData P (B u) u of
               Throws \<Rightarrow> []
             | Returns pd \<Rightarrow>
                 (case extractForms (B u) of
                    Throws \<Rightarrow> []
                  | Returns fs \<Rightarrow>
                      (case extractInteractiveElements (B u) of
                         Throws \<Rightarrow> []
                       | Returns es \<Rightarrow>
                           (case extractLinks (B u) of
                              Throws \<Rightarrow> []
                            | Returns links \<Rightarrow> links)))))"

lemma explorePage_enqueues:
  "toVisit (explorePage P B u d s) =
     toVisit s @ map (\<lambda>link. Entry link (d + 1))
       (filter (\<lambda>l. shouldFollowLink P (s\<lparr>visited := set_add u (visited s)\<rparr>) l
                     \<and> l \<notin> set (set_add u (visited s)))
               (pageLinks P B u))"
proof -
  define follow where "follow = shouldFollowLink P (s\<lparr>visited := set_add u (visited s)\<rparr>)"
  have same: "\<And>t l. visited t = set_add u (visited s) \<Longrightarrow> targetUrl t = targetUrl s
      \<Longrightarrow> baseDomain t = baseDomain s \<Longrightarrow> shouldFollowLink P t l = follow l"
    unfolding follow_def by (rule shouldFollowLink_cong) simp_all
  have "toVisit (explorePage P B u d s) =
     toVisit s @ map (\<lambda>link. Entry link (d + 1))
       (filter (\<lambda>l. follow l \<and> l \<notin> set (set_add u (visited s))) (pageLinks P B u))"
    by (simp add: explorePage_def pageLinks_def Let_def followLinks_toVisit same
           split: option.split outcome.split)
  then show ?thesis by (simp add: follow_def)
qed

lemma pageLinks_hrefs:
  assumes "l \<in> set (pageLinks P B u)"
  shows "\<exists>hrefs. domHrefs (B u) = Returns hrefs \<and> l \<in> set hrefs"
proof -
  have "\<exists>links. extractLinks (B u) = Returns links \<and> l \<in> set links"
  proof (cases "extractLinks (B u)")
    case Throws
    with assms show ?thesis
      by (simp add: pageLinks_def split: option.splits outcome.splits if_splits)
  next
    case (Returns links)
    with assms show ?thesis
      by (auto simp: pageLinks_def split: option.splits outcome.splits if_splits)
  qed
  then obtain links where "extractLinks (B u) = Returns links" and "l \<in> set links"
    by blast
  then show ?thesis by (rule extractLinks_hrefs)
qed

text \<open>
  The URLs that the crawler can come to: the start URL, and every link of a page that
  loaded which \<^verbatim>\<open>shouldFollowLink\<close> accepts, whatever the depth. They are URLs as
  written: two URLs that differ in their fragment are two entries of the visited set.
\<close>

inductive_set crawlable :: "urlParser \<Rightarrow> browser \<Rightarrow> engine \<Rightarrow> string set"
  for P :: urlParser and B :: browser and e :: engine where
  start: "targetUrl e \<in> crawlable P B e"
| link: "u \<in> crawlable P B e \<Longrightarrow> l \<in> set (pageLinks P B u) \<Longrightarrow> shouldFollowLink P e l
         \<Longrightarrow> l \<in> crawlable P B e"

lemma crawlable_reachable: "crawlable P B e \<subseteq> reachable B (targetUrl e)"
proof
  fix u assume "u \<in> crawlable P B e"
  then show "u \<in> reachable B (targetUrl e)"
  proof (induction rule: crawlable.induct)
    case start
    show ?case by (rule reachable.start)
  next
    case (link u l)
    from pageLinks_hrefs [OF link(2)] link(4) show ?case by (auto intro: reachable.link)
  qed
qed

text \<open>
  The first URL that a run visits is the start URL, so that the anchor rule of
  \<^verbatim>\<open>shouldFollowLink\<close> compares with the start URL throughout a run.
\<close>

definition first_inv :: "engine \<Rightarrow> bool" where
  "first_inv s =
     (case visited s of
        [] \<Rightarrow> \<forall>ent \<in> set (toVisit s). entry_url ent = targetUrl s
      | v # vs \<Rightarrow> v = targetUrl s)"

lemma first_inv_step:
  assumes "first_inv s" and "crawl_cond s"
  shows "first_inv (crawl_step P B s)"
  using assms(2)
proof (cases rule: crawl_step_cases [where P = P and B = B])
  case (skip current rest)
  with assms(1) show ?thesis by (auto simp: first_inv_def split: list.splits)
next
  case (visit current rest)
  let ?u = "entry_url current"
  have "\<exists>vs. set_add ?u (visited s) = targetUrl s # vs"
  proof (cases "visited s")
    case Nil
    with assms(1) visit(1) have "?u = targetUrl s" by (simp add: first_inv_def)
    with Nil show ?thesis by (simp add: set_add_def)
  next
    case (Cons v vs)
    with assms(1) have "v = targetUrl s" by (simp add: first_inv_def)
    with Cons show ?thesis by (simp add: set_add_def)
  qed
  then show ?thesis
    unfolding visit(4) by (auto simp: first_inv_def explorePage_visited explorePage_config)
qed

lemma shouldFollowLink_first:
  assumes "firstVisited s = firstVisited e" and "baseDomain s = baseDomain e"
  shows "shouldFollowLink P s l = shouldFollowLink P e l"
  unfolding shouldFollowLink_def assms by (rule refl)

text \<open>
  Every visited or queued URL is one the crawler can come to.
\<close>

definition crawl_inv :: "urlParser \<Rightarrow> browser \<Rightarrow> engine \<Rightarrow> engine \<Rightarrow> bool" where
  "crawl_inv P B e s =
     (first_inv s \<and> targetUrl s = targetUrl e \<and> baseDomain s = baseDomain e
      \<and> set (visited s) \<union> entry_url ` set (toVisit s) \<subseteq> crawlable P B e)"

lemma crawl_inv_step:
  assumes "crawl_inv P B e s" and "crawl_cond s" and "visited e = []"
  shows "crawl_inv P B e (crawl_step P B s)"
proof -
  from assms(1) have fi: "first_inv s" and t: "targetUrl s = targetUrl e"
    and b: "baseDomain s = baseDomain e"
    and sub: "set (visited s) \<union> entry_url ` set (toVisit s) \<subseteq> crawlable P B e"
    by (simp_all add: crawl_inv_def)
  have fi': "first_inv (crawl_step P B s)" by (rule first_inv_step [OF fi assms(2)])
  have fe: "firstVisited e = targetUrl e" using assms(3) by (simp add: firstVisited_def)
  from assms(2) show ?thesis
  proof (cases rule: crawl_step_cases [where P = P and B = B])
    case (skip current rest)
    with fi' t b sub show ?thesis by (auto simp: crawl_inv_def)
  next
    case (visit current rest)
    let ?u = "entry_url current"
    let ?s1 = "s\<lparr>toVisit := rest, visited := set_add ?u (visited s)\<rparr>"
    from sub visit(1) have u: "?u \<in> crawlable P B e"
      and old: "set (visited s) \<union> entry_url ` set rest \<subseteq> crawlable P B e"
      by auto
    have "\<exists>vs. visited ?s1 = targetUrl ?s1 # vs"
      using fi' unfolding visit(4)
      by (cases "set_add ?u (visited s)")
         (auto simp: first_inv_def explorePage_visited explorePage_config set_add_def split: if_splits)
    then have "firstVisited ?s1 = targetUrl s" by (auto simp: firstVisited_def)
    with fe t have "firstVisited ?s1 = firstVisited e" by simp
    then have follow: "\<And>l. shouldFollowLink P ?s1 l = shouldFollowLink P e l"
      by (rule shouldFollowLink_first) (simp add: b)
    let ?links = "filter (\<lambda>l. shouldFollowLink P ?s1 l \<and> l \<notin> set (set_add ?u (visited s)))
                    (pageLinks P B ?u)"
    have tv: "toVisit (explorePage P B ?u (depth current) (s\<lparr>toVisit := rest\<rparr>))
                = rest @ map (\<lambda>link. Entry link (depth current + 1)) ?links"
      by (simp add: explorePage_enqueues)
    have "set ?links \<subseteq> crawlable P B e"
      using u by (auto simp: follow intro: crawlable.link)
    with old u have "set (visited (crawl_step P B s)) \<union> entry_url ` set (toVisit (crawl_step P B s))
                       \<subseteq> crawlable P B e"
      unfolding visit(4) tv explorePage_visited by (auto simp: set_add_def)
    with fi' t b show ?thesis
      unfolding crawl_inv_def visit(4) by (simp add: explorePage_config)
  qed
qed

lemma crawl_inv_run:
  assumes "newEngine P cfg = Some e" and "run_state P B (startState e) s"
  shows "crawl_inv P B e s"
proof (rule run_state_invariant [OF assms(2)])
  show "crawl_inv P B e (startState e)"
    by (simp add: startState_newEngine [OF assms(1)] crawl_inv_def first_inv_def crawlable.start)
next
  fix t assume "crawl_inv P B e t" and "crawl_cond t"
  then show "crawl_inv P B e (crawl_step P B t)"
    by (rule crawl_inv_step) (rule startState_newEngine(2) [OF assms(1)])
qed

lemma shouldFollowLink_accepts:
  assumes "shouldFollowLink P s l"
  shows "\<exists>p. P l = Some p \<and> hostname p = baseDomain s
            \<and> \<not> list_ex (\<lambda>ext. endsWith (toLowerCase (pathname p)) ext) skipExtensions"
  using assms by (auto simp: shouldFollowLink_def split: option.splits if_splits)

subsection \<open>Failed visits\<close>





subsection \<open>The classifier as a list of rules\<close>

text \<open>
  The rules of \<^verbatim>\<open>classifyPage\<close> as an ordered list of conditions and results, the first
  condition that holds giving the result. A keyword is looked for in the lowercased
  title, heading and path.
\<close>

definition keyword :: "string \<Rightarrow> pageData \<Rightarrow> string \<Rightarrow> bool" where
  "keyword w d p = str_includes (toLowerCase (title d @ '' '' @ heading d @ '' '' @ p)) w"

definition pageRules :: "((pageData \<Rightarrow> string \<Rightarrow> bool) \<times> string) list" where
  "pageRules =
     [(\<lambda>d p. keyword ''login'' d p \<or> keyword ''sign in'' d p, ''login''),
      (\<lambda>d p. keyword ''signup'' d p \<or> keyword ''register'' d p \<or> keyword ''sign up'' d p, ''signup''),
      (\<lambda>d p. keyword ''dashboard'' d p, ''dashboard''),
      (\<lambda>d p. keyword ''profile'' d p \<or> keyword ''account'' d p, ''profile''),
      (\<lambda>d p. keyword ''contact'' d p, ''contact''),
      (\<lambda>d p. keyword ''about'' d p, ''about''),
      (\<lambda>d p. p = ''/'' \<or> p = [], ''homepage''),
      (\<lambda>d p. (p \<noteq> [] \<and> is_digit (last p)) \<or> str_includes p ''detail'', ''detail''),
      (\<lambda>d p. str_includes p ''list'' \<or> str_includes (bodyText d) ''showing''
               \<or> str_includes (bodyText d) ''results'', ''list'')]"

fun firstMatch :: "(('a \<Rightarrow> 'b \<Rightarrow> bool) \<times> string) list \<Rightarrow> string \<Rightarrow> 'a \<Rightarrow> 'b \<Rightarrow> string" where
  "firstMatch [] other d p = other"
| "firstMatch ((applies, result) # rules) other d p =
     (if applies d p then result else firstMatch rules other d p)"

text \<open>
  The rules as the specification words them, where \<^verbatim>\<open>detail\<close> is one more keyword of the
  combined text.
\<close>

definition claimedRules :: "((pageData \<Rightarrow> string \<Rightarrow> bool) \<times> string) list" where
  "claimedRules =
     [(\<lambda>d p. keyword ''login'' d p \<or> keyword ''sign in'' d p, ''login''),
      (\<lambda>d p. keyword ''signup'' d p \<or> keyword ''register'' d p \<or> keyword ''sign up'' d p, ''signup''),
      (\<lambda>d p. keyword ''dashboard'' d p, ''dashboard''),
      (\<lambda>d p. keyword ''profile'' d p \<or> keyword ''account'' d p, ''profile''),
      (\<lambda>d p. keyword ''contact'' d p, ''contact''),
      (\<lambda>d p. keyword ''about'' d p, ''about''),
      (\<lambda>d p. p = ''/'' \<or> p = [], ''homepage''),
      (\<lambda>d p. (p \<noteq> [] \<and> is_digit (last p)) \<or> keyword ''detail'' d p, ''detail''),
      (\<lambda>d p. str_includes p ''list'' \<or> str_includes (bodyText d) ''showing''
               \<or> str_includes (bodyText d) ''results'', ''list'')]"

text \<open>Reading the classifier's input back from a page record.\<close>

definition signalsOf :: "pageRecord \<Rightarrow> pageData" where
  "signalsOf r = \<lparr> title = title r, heading = heading r, description = description r,
                   bodyText = preview r \<rparr>"

section \<open>The update engine (\<^verbatim>\<open>lib/updater.js\<close>)\<close>

subsection \<open>Numbers and versions\<close>

text \<open>
  The JavaScript numbers that \<^verbatim>\<open>mergeKnowledge\<close> computes with are integers held in
  doubles. They are modelled as \<open>int\<close>, with the rounding of a double written out:
  an integer of more than 53 bits is rounded to 53 significant bits, ties to even
  (\<open>roundDouble\<close>). Two things are left out: JavaScript prints a number of
  \<^verbatim>\<open>1e21\<close> or more in exponent notation, and lets \<^verbatim>\<open>parseInt\<close> approximate a decimal of more
  than twenty significant digits. No statement below reaches that range.

  \<^verbatim>\<open>parseInt(s)\<close> skips leading white space, reads a sign, reads hexadecimal digits after
  \<^verbatim>\<open>0x\<close> and decimal digits otherwise, and stops at the first character that is no digit;
  with no digit at all the result is \<^verbatim>\<open>NaN\<close>, here \<open>None\<close>.
\<close>

definition is_space :: "char \<Rightarrow> bool" where
  "is_space c = (let n = (of_char c :: nat) in n = 32 \<or> (9 \<le> n \<and> n \<le> 13))"

definition digit_value :: "char \<Rightarrow> nat" where
  "digit_value c =
     (let n = (of_char c :: nat) in
      if 48 \<le> n \<and> n \<le> 57 then n - 48
      else if 97 \<le> n \<and> n \<le> 122 then n - 87
      else if 65 \<le> n \<and> n \<le> 90 then n - 55
      else 36)"

definition digits_value :: "int \<Rightarrow> string \<Rightarrow> int" where
  "digits_value radix ds = foldl (\<lambda>acc c. acc * radix + int (digit_value c)) 0 ds"

text \<open>
  The number of bits of a positive integer.
\<close>

function bit_length :: "int \<Rightarrow> nat" where
  "bit_length n = (if n \<le> 0 then 0 else Suc (bit_length (n div 2)))"
  by pat_completeness auto

termination
  by (relation "measure nat") auto

declare bit_length.simps [simp del]

definition roundDouble :: "int \<Rightarrow> int" where
  "roundDouble n =
     (if bit_length n \<le> 53 then n
      else
        (let e = bit_length n - 53;
             q = n div 2 ^ e;
             r = n mod 2 ^ e;
             half = 2 ^ (e - 1)
         in if r < half \<or> (r = half \<and> even q) then q * 2 ^ e else (q + 1) * 2 ^ e))"

definition toNumber :: "int \<Rightarrow> int" where
  "toNumber z = (if z < 0 then - roundDouble (- z) else roundDouble z)"

definition parseInt :: "string \<Rightarrow> int option" where
  "parseInt s =
     (let t = dropWhile is_space s;
          negative = (t \<noteq> [] \<and> hd t = CHR ''-'');
          t1 = (if t \<noteq> [] \<and> (hd t = CHR ''-'' \<or> hd t = CHR ''+'') then tl t else t);
          hex = (startsWith t1 ''0x'' \<or> startsWith t1 ''0X'');
          radix = (if hex then 16 else 10);
          t2 = (if hex then drop 2 t1 else t1);
          ds = takeWhile (\<lambda>c. int (digit_value c) < radix) t2
      in if ds = [] then None
         else Some (toNumber (if negative then - digits_value radix ds
                              else digits_value radix ds)))"

definition plusOne :: "int option \<Rightarrow> int option" where
  "plusOne v = map_option (\<lambda>n. toNumber (n + 1)) v"

text \<open>
  The decimal digits of a natural number, as \<^verbatim>\<open>String(n)\<close> prints them.
\<close>

function decimal :: "int \<Rightarrow> string" where
  "decimal n =
     (if n < 10 then [char_of (48 + nat n)]
      else decimal (n div 10) @ [char_of (48 + nat (n mod 10))])"
  by pat_completeness auto

termination
  by (relation "measure nat") auto

declare decimal.simps [simp del]

definition numberToString :: "int option \<Rightarrow> string" where
  "numberToString v =
     (case v of
        None \<Rightarrow> ''NaN''
      | Some n \<Rightarrow> if n < 0 then CHR ''-'' # decimal (- n) else decimal n)"

text \<open>
  The version of the merged knowledge:
  \<^verbatim>\<open>versionParts[1] = parseInt(versionParts[1]) + 1\<close> on the pieces of
  \<^verbatim>\<open>existing.version.split('.')\<close>, joined again. A version with no dot has one piece;
  the assignment then appends a second one, \<^verbatim>\<open>NaN\<close>.
\<close>

definition bumpVersion :: "string \<Rightarrow> string" where
  "bumpVersion v =
     (let versionParts = split CHR ''.'' v;
          minor = (if 1 < length versionParts then parseInt (versionParts ! 1) else None);
          bumped = numberToString (plusOne minor)
      in join CHR ''.''
           (if 1 < length versionParts then versionParts[1 := bumped]
            else versionParts @ [bumped]))"

lemma digit_value_digit: "is_digit c \<Longrightarrow> digit_value c < 10"
  by (auto simp: is_digit_def digit_value_def Let_def)

lemma digit_not_space: "is_digit c \<Longrightarrow> \<not> is_space c"
  by (auto simp: is_digit_def is_space_def Let_def)

lemma is_digit_char_of: "d < 10 \<Longrightarrow> is_digit (char_of (48 + d :: nat))"
  by (simp add: is_digit_def Let_def)

lemma digit_value_char_of: "d < 10 \<Longrightarrow> digit_value (char_of (48 + d :: nat)) = d"
  by (simp add: digit_value_def Let_def)

lemma dot_not_digit: "is_digit c \<Longrightarrow> c \<noteq> CHR ''.''"
  by (auto simp: is_digit_def Let_def)

lemma parseInt_digits:
  assumes "all_digits ds"
  shows "parseInt ds = Some (toNumber (digits_value 10 ds))"
proof -
  from assms obtain c cs where ds: "ds = c # cs" and c: "is_digit c" and cs: "list_all is_digit cs"
    by (cases ds) (auto simp: all_digits_def)
  have sp: "dropWhile is_space ds = ds" using ds c by (simp add: digit_not_space)
  have sign: "c \<noteq> CHR ''-''" "c \<noteq> CHR ''+''"
    using c by (auto simp: is_digit_def Let_def)
  have nohex: "\<not> startsWith ds ''0x''" "\<not> startsWith ds ''0X''"
    using ds cs by (cases cs; auto simp: startsWith_def is_digit_def Let_def)+
  have tw: "takeWhile (\<lambda>c. int (digit_value c) < 10) ds = ds"
    using ds c cs by (auto simp: list_all_iff dest: digit_value_digit intro!: takeWhile_eq_all_conv [THEN iffD2])
  show ?thesis
    unfolding parseInt_def sp Let_def
    using sign nohex tw ds by simp
qed

lemma bit_length_le: "n < 2 ^ k \<Longrightarrow> bit_length n \<le> k"
proof (induction k arbitrary: n)
  case 0
  then show ?case by (simp add: bit_length.simps [of n])
next
  case (Suc k)
  have "n div 2 < 2 ^ k" using Suc.prems by simp
  from Suc.IH [OF this] show ?case by (simp add: bit_length.simps [of n])
qed

lemma roundDouble_exact:
  assumes "0 \<le> n" and "n \<le> 2 ^ 53"
  shows "roundDouble n = n"
proof (cases "n = 2 ^ 53")
  case True
  have "roundDouble 9007199254740992 = 9007199254740992" by code_simp
  with True show ?thesis by simp
next
  case False
  with assms have "n < 2 ^ 53" by simp
  from bit_length_le [OF this] show ?thesis by (simp add: roundDouble_def)
qed

lemma toNumber_exact: "0 \<le> n \<Longrightarrow> n \<le> 2 ^ 53 \<Longrightarrow> toNumber n = n"
  by (simp add: toNumber_def roundDouble_exact)

lemma digits_value_snoc:
  "digits_value radix (ds @ [c]) = digits_value radix ds * radix + int (digit_value c)"
  by (simp add: digits_value_def)

lemma digits_value_nonneg: "0 \<le> radix \<Longrightarrow> 0 \<le> digits_value radix ds"
  by (induction ds rule: rev_induct) (simp_all add: digits_value_snoc, simp add: digits_value_def)

lemma decimal_props:
  "0 \<le> n \<Longrightarrow> all_digits (decimal n) \<and> digits_value 10 (decimal n) = n"
proof (induction n rule: decimal.induct)
  case (1 n)
  show ?case
  proof (cases "n < 10")
    case True
    with "1.prems" have d: "nat n < 10" by simp
    have "decimal n = [char_of (48 + nat n)]" using True by (simp add: decimal.simps [of n])
    with d "1.prems" show ?thesis
      by (simp add: all_digits_def is_digit_char_of digit_value_char_of digits_value_def)
  next
    case False
    then have step: "decimal n = decimal (n div 10) @ [char_of (48 + nat (n mod 10))]"
      by (simp add: decimal.simps [of n])
    have d: "nat (n mod 10) < 10" by simp
    from "1.prems" have "0 \<le> n div 10" by simp
    from "1.IH" [OF False this]
    have ih: "all_digits (decimal (n div 10))" "digits_value 10 (decimal (n div 10)) = n div 10"
      by simp_all
    from ih d show ?thesis
      by (simp add: step all_digits_def digits_value_snoc is_digit_char_of digit_value_char_of)
  qed
qed

lemma all_digits_no_dot: "all_digits ds \<Longrightarrow> CHR ''.'' \<notin> set ds"
  by (auto simp: all_digits_def list_all_iff dest: dot_not_digit)

lemma split_acc_no_sep:
  "sep \<notin> set s \<Longrightarrow> split_acc sep acc s = [rev acc @ s]"
  by (induction s arbitrary: acc) auto

lemma split_acc_append:
  "sep \<notin> set p \<Longrightarrow> split_acc sep acc (p @ sep # s) = (rev acc @ p) # split_acc sep [] s"
  by (induction p arbitrary: acc) auto

lemma split_join:
  assumes "ps \<noteq> []" and "\<forall>p \<in> set ps. sep \<notin> set p"
  shows "split sep (join sep ps) = ps"
  using assms
proof (induction sep ps rule: join.induct)
  case (1 sep)
  then show ?case by simp
next
  case (2 sep p)
  then show ?case by (simp add: split_def split_acc_no_sep)
next
  case (3 sep p q ps)
  then show ?case by (simp add: split_def split_acc_append)
qed

lemma split_acc_parts:
  "p \<in> set (split_acc sep acc s) \<Longrightarrow> sep \<notin> set acc \<Longrightarrow> sep \<notin> set p"
proof (induction s arbitrary: acc)
  case Nil
  then show ?case by auto
next
  case (Cons c s)
  show ?case
  proof (cases "c = sep")
    case True
    with Cons.prems have "p = rev acc \<or> p \<in> set (split_acc sep [] s)" by simp
    then show ?thesis
    proof
      assume "p = rev acc" with Cons.prems(2) show ?thesis by simp
    next
      assume "p \<in> set (split_acc sep [] s)"
      from Cons.IH [OF this] show ?thesis by simp
    qed
  next
    case False
    with Cons.prems have "p \<in> set (split_acc sep (c # acc) s)" by simp
    from Cons.IH [OF this] False Cons.prems(2) show ?thesis by simp
  qed
qed

lemma split_parts: "p \<in> set (split sep s) \<Longrightarrow> sep \<notin> set p"
  by (auto simp: split_def dest: split_acc_parts)

subsection \<open>Knowledge and its merge\<close>

text \<open>
  A page and a form of a knowledge file. The merge reads the \<^verbatim>\<open>path\<close> of a page and the
  \<^verbatim>\<open>action\<close> of a form, and reads and writes \<^verbatim>\<open>customData\<close> and \<^verbatim>\<open>customTestData\<close>, which
  an operator may have added; an absent property is \<open>None\<close>. Every other property is
  carried along untouched; the properties of the exploration records stand for them.
\<close>

record kpage = pageRecord +
  customData :: "json option"

record kform = formRecord +
  customTestData :: "json option"

text \<open>
  An entry of \<^verbatim>\<open>updateHistory\<close>.
\<close>

record historyEntry =
  date :: string
  previousVersion :: string
  newVersion :: string
  pagesAdded :: nat
  formsAdded :: int
  flowsAdded :: int

text \<open>
  The properties of a knowledge object that \<^verbatim>\<open>mergeKnowledge\<close> reads or writes; \<open>others\<close>
  stands for the rest, which the spread \<^verbatim>\<open>{ ...newAnalysis }\<close> copies. \<open>pages\<close> is the object
  that maps a category to its array of pages, in the order of its keys. The type
  parameters are the representations of a page, a form and the history array, the
  type of a user flow (only their number matters) and the type of the rest.
\<close>

record ('p, 'f, 'h, 'u, 'o) knowledge =
  version :: string
  pages :: "(string \<times> 'p list) list"
  forms :: "'f list"
  userFlows :: "'u list"
  updateHistory :: "'h option"
  removedForms :: "string list option"
  others :: 'o

type_synonym ('u, 'o) appKnowledge = "(kpage, kform, historyEntry list, 'u, 'o) knowledge"

text \<open>
  \<^verbatim>\<open>new URL(f.action)\<close> throws a \<^verbatim>\<open>TypeError\<close> on a string that is no URL.
\<close>

datatype error = TypeError

text \<open>
  The \<^verbatim>\<open>Map\<close> of the existing pages of one category by path: a later page replaces an
  earlier one with the same path.
\<close>

definition existingMap :: "kpage list \<Rightarrow> (string \<rightharpoonup> kpage)" where
  "existingMap existingPages = foldl (\<lambda>m p. m(path p \<mapsto> p)) Map.empty existingPages"

text \<open>
  The body of \<^verbatim>\<open>newPages.forEach\<close>.
\<close>

definition mergePage :: "(string \<rightharpoonup> kpage) \<Rightarrow> kpage \<Rightarrow> kpage" where
  "mergePage em newPage =
     (case em (path newPage) of
        None \<Rightarrow> newPage
      | Some existingPage \<Rightarrow>
          if truthy (customData existingPage)
          then newPage\<lparr>customData := customData existingPage\<rparr>
          else newPage)"

text \<open>
  \<^verbatim>\<open>existing.pages[category] || []\<close>.
\<close>

definition categoryPages :: "(string \<times> 'p list) list \<Rightarrow> string \<Rightarrow> 'p list" where
  "categoryPages ps category = (case map_of ps category of None \<Rightarrow> [] | Some xs \<Rightarrow> xs)"

text \<open>
  The loop \<^verbatim>\<open>for (const category in merged.pages)\<close>.
\<close>

definition mergePages ::
  "(string \<times> kpage list) list \<Rightarrow> (string \<times> kpage list) list \<Rightarrow> (string \<times> kpage list) list" where
  "mergePages existingPages mergedPages =
     map (\<lambda>(category, newPages).
            (category, map (mergePage (existingMap (categoryPages existingPages category))) newPages))
         mergedPages"

text \<open>
  \<^verbatim>\<open>forms.map(f => new URL(f.action).pathname)\<close>, which throws at the first action that
  is no URL.
\<close>

fun formPaths :: "urlParser \<Rightarrow> kform list \<Rightarrow> error + string list" where
  "formPaths P [] = Inr []"
| "formPaths P (f # fs) =
     (case P (action f) of
        None \<Rightarrow> Inl TypeError
      | Some u \<Rightarrow>
          (case formPaths P fs of
             Inl e \<Rightarrow> Inl e
           | Inr ps \<Rightarrow> Inr (pathname u # ps)))"

text \<open>
  The path of a form's action, \<open>None\<close> when the action is no URL.
\<close>

definition formPath :: "urlParser \<Rightarrow> kform \<Rightarrow> string option" where
  "formPath P f = map_option pathname (P (action f))"

text \<open>
  The body of \<^verbatim>\<open>merged.forms.forEach\<close>: \<^verbatim>\<open>existing.forms.find\<close> returns the first existing
  form with the same action path.
\<close>

definition mergeForm :: "urlParser \<Rightarrow> kform list \<Rightarrow> kform \<Rightarrow> kform" where
  "mergeForm P existingForms newForm =
     (case find (\<lambda>f. formPath P f = formPath P newForm) existingForms of
        None \<Rightarrow> newForm
      | Some existingForm \<Rightarrow>
          if truthy (customTestData existingForm)
          then newForm\<lparr>customTestData := customTestData existingForm\<rparr>
          else newForm)"

text \<open>
  \<^verbatim>\<open>Object.values(pages).flat()\<close>.
\<close>

definition allPages :: "(string \<times> kpage list) list \<Rightarrow> kpage list" where
  "allPages ps = concat (map snd ps)"

definition countNewPages :: "(string \<times> kpage list) list \<Rightarrow> (string \<times> kpage list) list \<Rightarrow> nat" where
  "countNewPages existingPages mergedPages =
     length (filter (\<lambda>p. path p \<notin> set (map path (allPages existingPages))) (allPages mergedPages))"

text \<open>
  \<^verbatim>\<open>mergeKnowledge(existing, newAnalysis)\<close>, on values: the result is the merged object,
  or the error thrown. \<open>now\<close> is \<^verbatim>\<open>new Date().toISOString()\<close>. The source writes to the
  objects of its arguments; here the merged pages, forms and history are new values. The
  model on a store, further down, keeps the objects, and \<open>mergeKnowledgeH_refines\<close>
  relates the two.
\<close>

definition mergeKnowledge ::
  "urlParser \<Rightarrow> string \<Rightarrow> ('u, 'o) appKnowledge \<Rightarrow> ('v, 'q) appKnowledge
     \<Rightarrow> error + ('v, 'q) appKnowledge" where
  "mergeKnowledge P now existing newAnalysis =
     (let mergedVersion = bumpVersion (version existing);
          mergedPages = mergePages (pages existing) (pages newAnalysis)
      in case formPaths P (forms existing) of
           Inl e \<Rightarrow> Inl e
         | Inr existingFormPaths \<Rightarrow>
             (case formPaths P (forms newAnalysis) of
                Inl e \<Rightarrow> Inl e
              | Inr newFormPaths \<Rightarrow>
                  (let removed = filter (\<lambda>p. p \<notin> set newFormPaths) (dedup [] existingFormPaths);
                       mergedForms = map (mergeForm P (forms existing)) (forms newAnalysis);
                       entry = \<lparr> date = now,
                                 previousVersion = version existing,
                                 newVersion = mergedVersion,
                                 pagesAdded = countNewPages (pages existing) mergedPages,
                                 formsAdded = int (length mergedForms) - int (length (forms existing)),
                                 flowsAdded = int (length (userFlows newAnalysis))
                                              - int (length (userFlows existing)) \<rparr>
                   in Inr (newAnalysis
                        \<lparr> version := mergedVersion,
                          pages := mergedPages,
                          forms := mergedForms,
                          removedForms := Some removed,
                          updateHistory :=
                            Some ((case updateHistory existing of None \<Rightarrow> [] | Some h \<Rightarrow> h)
                                  @ [entry]) \<rparr>))))"

text \<open>
  The order of versions: the dot-separated components are compared as numbers, from the
  left, and the first difference decides.
\<close>

fun components_less :: "string list \<Rightarrow> string list \<Rightarrow> bool" where
  "components_less (a # as) (b # bs) =
     (all_digits a \<and> all_digits b
      \<and> (digits_value 10 a < digits_value 10 b
          \<or> (digits_value 10 a = digits_value 10 b \<and> components_less as bs)))"
| "components_less as bs = False"

definition version_less :: "string \<Rightarrow> string \<Rightarrow> bool" where
  "version_less v w = components_less (split CHR ''.'' v) (split CHR ''.'' w)"

lemma mergeKnowledge_version:
  assumes "mergeKnowledge P now existing newAnalysis = Inr merged"
  shows "version merged = bumpVersion (version existing)"
  using assms by (auto simp: mergeKnowledge_def Let_def split: sum.splits)

lemma bumpVersion_dotted:
  assumes parts: "split CHR ''.'' v = major # minor # rest"
    and minor: "all_digits minor" and small: "digits_value 10 minor < 2 ^ 53"
  shows "bumpVersion v = join CHR ''.'' (major # decimal (digits_value 10 minor + 1) # rest)"
proof -
  have nn: "0 \<le> digits_value 10 minor" by (simp add: digits_value_nonneg)
  have "parseInt minor = Some (digits_value 10 minor)"
    using parseInt_digits [OF minor] nn small by (simp add: toNumber_exact)
  moreover have "toNumber (digits_value 10 minor + 1) = digits_value 10 minor + 1"
    using nn small by (intro toNumber_exact) simp_all
  ultimately show ?thesis
    using nn by (simp add: bumpVersion_def parts plusOne_def numberToString_def)
qed

text \<open>
  The page recorded under a path in a list of pages: the last one, if there are several.
\<close>

definition lastWithPath :: "kpage list \<Rightarrow> string \<Rightarrow> kpage option" where
  "lastWithPath ps k =
     (if filter (\<lambda>p. path p = k) ps = [] then None
      else Some (last (filter (\<lambda>p. path p = k) ps)))"

text \<open>
  \<^verbatim>\<open>existing.updateHistory || []\<close>.
\<close>

definition history :: "('p, 'f, 'h list, 'u, 'o) knowledge \<Rightarrow> 'h list" where
  "history k = (case updateHistory k of None \<Rightarrow> [] | Some h \<Rightarrow> h)"

lemma existingMap_snoc:
  "existingMap (ps @ [p]) = (existingMap ps)(path p \<mapsto> p)"
  by (simp add: existingMap_def)

lemma existingMap_lastWithPath: "existingMap ps k = lastWithPath ps k"
proof (induction ps rule: rev_induct)
  case Nil
  show ?case by (simp add: existingMap_def lastWithPath_def)
next
  case (snoc p ps)
  then show ?case by (simp add: existingMap_snoc lastWithPath_def)
qed

lemma mergePage_path: "path (mergePage em p) = path p"
  by (simp add: mergePage_def split: option.splits)

lemma mergeForm_action: "action (mergeForm P fs f) = action f"
  by (simp add: mergeForm_def split: option.splits)

lemma mergePages_paths: "map path (allPages (mergePages ex ps)) = map path (allPages ps)"
  by (induction ps) (auto simp: allPages_def mergePages_def mergePage_path)

lemma mergeKnowledge_fields:
  assumes "mergeKnowledge P now existing newAnalysis = Inr merged"
  shows "pages merged = mergePages (pages existing) (pages newAnalysis)"
    and "forms merged = map (mergeForm P (forms existing)) (forms newAnalysis)"
    and "userFlows merged = userFlows newAnalysis"
    and "others merged = others newAnalysis"
    and "updateHistory merged =
           Some (history existing @
             [\<lparr> date = now, previousVersion = version existing,
                 newVersion = bumpVersion (version existing),
                 pagesAdded = countNewPages (pages existing) (pages merged),
                 formsAdded = int (length (forms merged)) - int (length (forms existing)),
                 flowsAdded = int (length (userFlows merged)) - int (length (userFlows existing)) \<rparr>])"
  using assms
  by (auto simp: mergeKnowledge_def Let_def history_def split: sum.splits)

lemma mergeKnowledge_returns:
  assumes "\<forall>f \<in> set (forms existing) \<union> set (forms newAnalysis). P (action f) \<noteq> None"
  shows "\<exists>merged. mergeKnowledge P now existing newAnalysis = Inr merged"
proof -
  have ok: "\<And>fs. \<forall>f \<in> set fs. P (action f) \<noteq> None \<Longrightarrow> \<exists>ps. formPaths P fs = Inr ps"
  proof -
    fix fs show "\<forall>f \<in> set fs. P (action f) \<noteq> None \<Longrightarrow> \<exists>ps. formPaths P fs = Inr ps"
      by (induction fs) auto
  qed
  from assms obtain ps qs where "formPaths P (forms existing) = Inr ps"
    and "formPaths P (forms newAnalysis) = Inr qs"
    using ok [of "forms existing"] ok [of "forms newAnalysis"] by auto
  then show ?thesis by (simp add: mergeKnowledge_def Let_def)
qed

subsection \<open>The file system and \<^verbatim>\<open>updateSkill\<close>\<close>

text \<open>
  The file system, as far as \<^verbatim>\<open>updateSkill\<close> uses it: a path is a list of names, and holds a
  file with its text, a directory or nothing. An operation returns its result or the
  error it throws, and the file system it leaves.
\<close>

datatype node = File string | Dir

type_synonym filePath = "string list"

type_synonym fileSystem = "filePath \<rightharpoonup> node"

text \<open>
  The errors that end \<^verbatim>\<open>updateSkill\<close>.
\<close>

datatype failure =
    SkillNotFound
  | KnowledgeNotFound
  | ReadError
  | SyntaxError
  | ExplorationError
  | MergeError error
  | FsError
  | GeneratorError

definition existsSync :: "fileSystem \<Rightarrow> filePath \<Rightarrow> bool" where
  "existsSync fs p = (fs p \<noteq> None)"

definition isFile :: "fileSystem \<Rightarrow> filePath \<Rightarrow> bool" where
  "isFile fs p = (case fs p of Some (File c) \<Rightarrow> True | _ \<Rightarrow> False)"

text \<open>
  \<^verbatim>\<open>fs.mkdirSync(p, { recursive: true })\<close>: the directory and its missing parents are
  made; the call fails where a file stands in the way.
\<close>

definition mkdirSync :: "filePath \<Rightarrow> fileSystem \<Rightarrow> (failure + unit) \<times> fileSystem" where
  "mkdirSync p fs =
     (if list_ex (isFile fs) (prefixes p) then (Inl FsError, fs)
      else (Inr (), (\<lambda>q. if prefix q p \<and> q \<noteq> [] \<and> fs q = None then Some Dir else fs q)))"

text \<open>
  \<^verbatim>\<open>fs.copyFileSync(src, dst)\<close>: \<open>src\<close> must be a file, \<open>dst\<close> no directory, and the parent
  of \<open>dst\<close> a directory.
\<close>

definition copyFileSync :: "filePath \<Rightarrow> filePath \<Rightarrow> fileSystem \<Rightarrow> (failure + unit) \<times> fileSystem" where
  "copyFileSync src dst fs =
     (case fs src of
        Some (File c) \<Rightarrow>
          (if fs dst = Some Dir \<or> fs (butlast dst) \<noteq> Some Dir then (Inl FsError, fs)
           else (Inr (), fs(dst \<mapsto> File c)))
      | _ \<Rightarrow> (Inl FsError, fs))"

definition filesToBackup :: "string list" where
  "filesToBackup = [''SKILL.md'', ''app-knowledge.json'', ''test-patterns.js'', ''README.md'']"

text \<open>
  \<^verbatim>\<open>new Date().toISOString().replace(/[:.]/g, '-').split('T')[0]\<close>: the date, without the
  time of day.
\<close>

definition backupTimestamp :: "string \<Rightarrow> string" where
  "backupTimestamp now =
     hd (split CHR ''T'' (map (\<lambda>c. if c = CHR '':'' \<or> c = CHR ''.'' then CHR ''-'' else c) now))"

definition backupPathOf :: "filePath \<Rightarrow> string \<Rightarrow> filePath" where
  "backupPathOf sp now = sp @ [''.backups'', ''backup-'' @ backupTimestamp now]"

text \<open>
  The \<^verbatim>\<open>forEach\<close> over the files to back up: a file that is not there is passed over.
\<close>

fun copyFiles ::
  "filePath \<Rightarrow> filePath \<Rightarrow> string list \<Rightarrow> fileSystem \<Rightarrow> (failure + unit) \<times> fileSystem" where
  "copyFiles sp backupPath [] fs = (Inr (), fs)"
| "copyFiles sp backupPath (file # files) fs =
     (if existsSync fs (sp @ [file]) then
        (case copyFileSync (sp @ [file]) (backupPath @ [file]) fs of
           (Inl e, fs') \<Rightarrow> (Inl e, fs')
         | (Inr u, fs') \<Rightarrow> copyFiles sp backupPath files fs')
      else copyFiles sp backupPath files fs)"

definition backupExistingSkill ::
  "filePath \<Rightarrow> string \<Rightarrow> fileSystem \<Rightarrow> (failure + unit) \<times> fileSystem" where
  "backupExistingSkill sp now fs =
     (let backupDir = sp @ [''.backups''];
          made = (if \<not> existsSync fs backupDir then mkdirSync backupDir fs else (Inr (), fs))
      in case made of
           (Inl e, fs1) \<Rightarrow> (Inl e, fs1)
         | (Inr u, fs1) \<Rightarrow>
             (case mkdirSync (backupPathOf sp now) fs1 of
                (Inl e, fs2) \<Rightarrow> (Inl e, fs2)
              | (Inr u, fs2) \<Rightarrow> copyFiles sp (backupPathOf sp now) filesToBackup fs2))"

text \<open>
  \<^verbatim>\<open>updates.join(', ')\<close>.
\<close>

fun joinWith :: "string \<Rightarrow> string list \<Rightarrow> string" where
  "joinWith sep [] = []"
| "joinWith sep [p] = p"
| "joinWith sep (p # q # ps) = p @ sep @ joinWith sep (q # ps)"

definition generateUpdateSummary :: "('u, 'o) appKnowledge \<Rightarrow> ('v, 'q) appKnowledge \<Rightarrow> string" where
  "generateUpdateSummary existing merged =
     (let pagesAdded = int (countNewPages (pages existing) (pages merged));
          formDiff = int (length (forms merged)) - int (length (forms existing));
          flowDiff = int (length (userFlows merged)) - int (length (userFlows existing));
          updates =
            (if pagesAdded > 0 then [numberToString (Some pagesAdded) @ '' new pages discovered''] else [])
            @ (if formDiff > 0 then [numberToString (Some formDiff) @ '' new forms found'']
               else if formDiff < 0 then [numberToString (Some (abs formDiff)) @ '' forms removed'']
               else [])
            @ (if flowDiff > 0 then [numberToString (Some flowDiff) @ '' new flows identified''] else [])
      in if updates = [] then ''No significant changes detected'' else joinWith '', '' updates)"

text \<open>
  What \<^verbatim>\<open>updateSkill\<close> takes from outside this file: the path of the skill, the JSON
  parser, the exploration and analysis of the application (\<open>None\<close> when they throw;
  they write no file of the skill), the generator, the URL parser and the clock at the
  merge and at the backup.
\<close>

record ('u, 'o, 'v, 'q) updaterEnv =
  skillPath :: filePath
  parseKnowledge :: "string \<Rightarrow> ('u, 'o) appKnowledge option"
  reexplore :: "('u, 'o) appKnowledge \<Rightarrow> ('v, 'q) appKnowledge option"
  generate :: "('v, 'q) appKnowledge \<Rightarrow> fileSystem \<Rightarrow> (failure + unit) \<times> fileSystem"
  urlOf :: urlParser
  mergeClock :: string
  backupClock :: string

text \<open>
  \<^verbatim>\<open>updateSkill\<close>: the checks, the knowledge read from its file, the exploration, the
  merge, the backup and the generation, each step ending the run when it throws.
\<close>

definition updateSkill ::
  "('u, 'o, 'v, 'q) updaterEnv \<Rightarrow> fileSystem \<Rightarrow> (failure + filePath \<times> string) \<times> fileSystem" where
  "updateSkill env fs =
     (if \<not> existsSync fs (skillPath env) then (Inl SkillNotFound, fs)
      else if \<not> existsSync fs (skillPath env @ [''app-knowledge.json''])
        then (Inl KnowledgeNotFound, fs)
      else
        (case fs (skillPath env @ [''app-knowledge.json'']) of
           Some (File text) \<Rightarrow>
             (case parseKnowledge env text of
                None \<Rightarrow> (Inl SyntaxError, fs)
              | Some existingKnowledge \<Rightarrow>
                  (case reexplore env existingKnowledge of
                     None \<Rightarrow> (Inl ExplorationError, fs)
                   | Some newAnalysis \<Rightarrow>
                       (case mergeKnowledge (urlOf env) (mergeClock env) existingKnowledge newAnalysis of
                          Inl e \<Rightarrow> (Inl (MergeError e), fs)
                        | Inr mergedAnalysis \<Rightarrow>
                            (case backupExistingSkill (skillPath env) (backupClock env) fs of
                               (Inl e, fs1) \<Rightarrow> (Inl e, fs1)
                             | (Inr u, backedUp) \<Rightarrow>
                                 (case generate env mergedAnalysis backedUp of
                                    (Inl e, fs2) \<Rightarrow> (Inl e, fs2)
                                  | (Inr u, generated) \<Rightarrow>
                                      (Inr (skillPath env,
                                            generateUpdateSummary existingKnowledge mergedAnalysis),
                                       generated))))))
         | _ \<Rightarrow> (Inl ReadError, fs)))"

text \<open>
  The four generated files are the same in two file systems.
\<close>

definition artifactsSame :: "filePath \<Rightarrow> fileSystem \<Rightarrow> fileSystem \<Rightarrow> bool" where
  "artifactsSame sp fs fs' = (\<forall>file \<in> set filesToBackup. fs' (sp @ [file]) = fs (sp @ [file]))"

text \<open>
  Every one of the four files of the first file system has its copy under the backup path in the second.
\<close>

definition backedUpIn :: "filePath \<Rightarrow> filePath \<Rightarrow> fileSystem \<Rightarrow> fileSystem \<Rightarrow> bool" where
  "backedUpIn sp backupPath fs fs' =
     (\<forall>file \<in> set filesToBackup. \<forall>c. fs (sp @ [file]) = Some (File c)
         \<longrightarrow> fs' (backupPath @ [file]) = Some (File c))"

lemma mkdirSync_other:
  "mkdirSync p fs = (r, fs') \<Longrightarrow> \<not> prefix q p \<Longrightarrow> fs' q = fs q"
  by (auto simp: mkdirSync_def split: if_splits)

lemma copyFileSync_other:
  "copyFileSync src dst fs = (r, fs') \<Longrightarrow> q \<noteq> dst \<Longrightarrow> fs' q = fs q"
  by (auto simp: copyFileSync_def split: option.splits node.splits if_splits)

lemma copyFileSync_done:
  "copyFileSync src dst fs = (Inr u, fs') \<Longrightarrow> fs src = Some (File c) \<Longrightarrow> fs' dst = Some (File c)"
  by (auto simp: copyFileSync_def split: option.splits node.splits if_splits)

lemma copyFiles_other:
  assumes "copyFiles sp bp files fs = (r, fs')" and "\<forall>file \<in> set files. q \<noteq> bp @ [file]"
  shows "fs' q = fs q"
  using assms
proof (induction files arbitrary: fs)
  case Nil
  then show ?case by simp
next
  case (Cons g gs)
  show ?case
  proof (cases "existsSync fs (sp @ [g])")
    case False
    with Cons show ?thesis by simp
  next
    case True
    obtain r1 fs1 where c: "copyFileSync (sp @ [g]) (bp @ [g]) fs = (r1, fs1)"
      by (cases "copyFileSync (sp @ [g]) (bp @ [g]) fs")
    have same: "fs1 q = fs q" using copyFileSync_other [OF c] Cons.prems(2) by simp
    show ?thesis
    proof (cases r1)
      case (Inl e)
      with Cons.prems(1) True c same show ?thesis by simp
    next
      case (Inr u)
      with Cons.prems(1) True c have "copyFiles sp bp gs fs1 = (r, fs')" by simp
      from Cons.IH [OF this] Cons.prems(2) same show ?thesis by simp
    qed
  qed
qed

lemma copyFiles_done:
  assumes "copyFiles sp bp files fs = (Inr u, fs')" and "distinct files"
    and "file \<in> set files" and "fs (sp @ [file]) = Some (File c)"
    and "length bp \<noteq> length sp"
  shows "fs' (bp @ [file]) = Some (File c)"
  using assms(1,2,3,4)
proof (induction files arbitrary: fs)
  case Nil
  then show ?case by simp
next
  case (Cons g gs)
  have diff: "\<And>a b. sp @ [a] \<noteq> bp @ [b]" using assms(5) by (metis length_append_singleton nat.inject)
  show ?case
  proof (cases "existsSync fs (sp @ [g])")
    case False
    with Cons.prems have "file \<noteq> g" by (auto simp: existsSync_def)
    with Cons False show ?thesis by simp
  next
    case True
    obtain r1 fs1 where c: "copyFileSync (sp @ [g]) (bp @ [g]) fs = (r1, fs1)"
      by (cases "copyFileSync (sp @ [g]) (bp @ [g]) fs")
    with Cons.prems(1) True obtain u1 where r1: "r1 = Inr u1"
      and rest: "copyFiles sp bp gs fs1 = (Inr u, fs')"
      by (cases r1) auto
    show ?thesis
    proof (cases "file = g")
      case True
      with c r1 Cons.prems(4) have "fs1 (bp @ [g]) = Some (File c)"
        by (auto dest: copyFileSync_done)
      moreover have "fs' (bp @ [g]) = fs1 (bp @ [g])"
        using copyFiles_other [OF rest, of "bp @ [g]"] Cons.prems(2) by auto
      ultimately show ?thesis using True by simp
    next
      case False
      have "fs1 (sp @ [file]) = fs (sp @ [file])"
        using copyFileSync_other [OF c, of "sp @ [file]"] diff by simp
      with Cons.IH [OF rest] Cons.prems False show ?thesis by simp
    qed
  qed
qed

lemma backupExistingSkill_result:
  assumes "backupExistingSkill sp now fs = (r, fs')"
  shows "artifactsSame sp fs fs' \<and> (\<not> isl r \<longrightarrow> backedUpIn sp (backupPathOf sp now) fs fs')"
proof -
  let ?bd = "sp @ [''.backups'']"
  let ?bp = "backupPathOf sp now"
  have len: "length ?bp \<noteq> length sp" by (simp add: backupPathOf_def)
  have art_bd: "\<And>file. file \<in> set filesToBackup \<Longrightarrow> \<not> prefix (sp @ [file]) ?bd"
    by (auto simp: filesToBackup_def prefix_def)
  have art_bp: "\<And>file. file \<in> set filesToBackup \<Longrightarrow> \<not> prefix (sp @ [file]) ?bp"
    by (auto simp: filesToBackup_def backupPathOf_def prefix_def)
  have art_copy: "\<And>file g. sp @ [file] \<noteq> ?bp @ [g]"
    by (simp add: backupPathOf_def)
  obtain r1 fs1 where m1: "(if \<not> existsSync fs ?bd then mkdirSync ?bd fs else (Inr (), fs)) = (r1, fs1)"
    by (cases "if \<not> existsSync fs ?bd then mkdirSync ?bd fs else (Inr (), fs)")
  have s1: "fs1 (sp @ [g]) = fs (sp @ [g])" if g: "g \<in> set filesToBackup" for g
  proof (cases "existsSync fs ?bd")
    case True
    with m1 show ?thesis by simp
  next
    case False
    with m1 have "mkdirSync ?bd fs = (r1, fs1)" by simp
    from mkdirSync_other [OF this art_bd [OF g]] show ?thesis .
  qed
  show ?thesis
  proof (cases r1)
    case (Inl e)
    with assms m1 have "fs' = fs1" "isl r"
      by (auto simp: backupExistingSkill_def Let_def)
    with s1 show ?thesis by (simp add: artifactsSame_def)
  next
    case (Inr u1)
    obtain r2 fs2 where m2: "mkdirSync ?bp fs1 = (r2, fs2)" by (cases "mkdirSync ?bp fs1")
    have s2: "fs2 (sp @ [g]) = fs (sp @ [g])" if g: "g \<in> set filesToBackup" for g
      using mkdirSync_other [OF m2 art_bp [OF g]] s1 [OF g] by simp
    show ?thesis
    proof (cases r2)
      case (Inl e)
      with assms m1 m2 Inr have "fs' = fs2" "isl r"
        by (auto simp: backupExistingSkill_def Let_def)
      with s2 show ?thesis by (simp add: artifactsSame_def)
    next
      case (Inr u2)
      with assms m1 m2 \<open>r1 = Inr u1\<close>
      have cp: "copyFiles sp ?bp filesToBackup fs2 = (r, fs')"
        by (auto simp: backupExistingSkill_def Let_def)
      have same: "artifactsSame sp fs fs'"
        unfolding artifactsSame_def
      proof
        fix g assume f: "g \<in> set filesToBackup"
        have "fs' (sp @ [g]) = fs2 (sp @ [g])"
          by (rule copyFiles_other [OF cp]) (use art_copy in blast)
        with s2 [OF f] show "fs' (sp @ [g]) = fs (sp @ [g])" by simp
      qed
      have "\<not> isl r \<longrightarrow> backedUpIn sp ?bp fs fs'"
      proof
        assume "\<not> isl r"
        then obtain u where r: "r = Inr u" by (cases r) auto
        show "backedUpIn sp ?bp fs fs'"
          unfolding backedUpIn_def
        proof (intro ballI allI impI)
          fix g c assume f: "g \<in> set filesToBackup" and c: "fs (sp @ [g]) = Some (File c)"
          have d: "distinct filesToBackup" by (simp add: filesToBackup_def)
          from c s2 [OF f] have "fs2 (sp @ [g]) = Some (File c)" by simp
          from copyFiles_done [OF cp [unfolded r] d f this len]
          show "fs' (?bp @ [g]) = Some (File c)" .
        qed
      qed
      with same show ?thesis by simp
    qed
  qed
qed

text \<open>
  For a clock in ISO format, date and time separated by \<^verbatim>\<open>T\<close>, the name of the backup
  directory holds the date and nothing of the time.
\<close>

lemma backupTimestamp_day:
  assumes "CHR ''T'' \<notin> set day" and "CHR '':'' \<notin> set day" and "CHR ''.'' \<notin> set day"
  shows "backupTimestamp (day @ CHR ''T'' # time) = day"
proof -
  let ?f = "\<lambda>c. if c = CHR '':'' \<or> c = CHR ''.'' then CHR ''-'' else c"
  from assms(2,3) have "map ?f day = day" by (induction day) auto
  then have "map ?f (day @ CHR ''T'' # time) = day @ CHR ''T'' # map ?f time" by simp
  then show ?thesis
    using assms(1) by (simp add: backupTimestamp_def split_def split_acc_append)
qed

subsection \<open>The merge on a store\<close>

text \<open>
  \<^verbatim>\<open>mergeKnowledge\<close> once more, this time with the objects it writes to kept in a store:
  the page objects, the form objects and the history arrays are held by reference, so that
  the same object can be reached from the arguments and from the result. The category
  arrays and the array of forms are lists of references; the function never writes to
  them.
\<close>

type_synonym ref = nat

record heap =
  pageObjs :: "ref \<rightharpoonup> kpage"
  formObjs :: "ref \<rightharpoonup> kform"
  historyArrs :: "ref \<rightharpoonup> historyEntry list"
  nextRef :: ref

type_synonym ('u, 'o) knowledgeRef = "(ref, ref, ref, 'u, 'o) knowledge"

text \<open>
  The objects behind a list of references.
\<close>

definition derefPages :: "heap \<Rightarrow> ref list \<Rightarrow> kpage list" where
  "derefPages h refs = List.map_filter (pageObjs h) refs"

definition derefForms :: "heap \<Rightarrow> ref list \<Rightarrow> kform list" where
  "derefForms h refs = List.map_filter (formObjs h) refs"

definition allRefs :: "(string \<times> ref list) list \<Rightarrow> ref list" where
  "allRefs ps = concat (map snd ps)"

text \<open>
  The \<^verbatim>\<open>Map\<close> of the existing pages by path, holding the page objects by reference.
\<close>

definition existingMapH :: "heap \<Rightarrow> ref list \<Rightarrow> (string \<rightharpoonup> ref)" where
  "existingMapH h existingPages =
     foldl (\<lambda>m r. case pageObjs h r of None \<Rightarrow> m | Some p \<Rightarrow> m(path p \<mapsto> r))
           Map.empty existingPages"

text \<open>
  \<^verbatim>\<open>newPage.customData = existingPage.customData\<close>, written to the object of the new page.
\<close>

definition mergePageH :: "(string \<rightharpoonup> ref) \<Rightarrow> ref \<Rightarrow> heap \<Rightarrow> heap" where
  "mergePageH em r h =
     (case pageObjs h r of
        None \<Rightarrow> h
      | Some newPage \<Rightarrow>
          (case em (path newPage) of
             None \<Rightarrow> h
           | Some er \<Rightarrow>
               (case pageObjs h er of
                  None \<Rightarrow> h
                | Some existingPage \<Rightarrow>
                    if truthy (customData existingPage)
                    then h\<lparr>pageObjs := (pageObjs h)(r \<mapsto> newPage\<lparr>customData := customData existingPage\<rparr>)\<rparr>
                    else h)))"

definition mergeCategoryH :: "(string \<times> ref list) list \<Rightarrow> string \<times> ref list \<Rightarrow> heap \<Rightarrow> heap" where
  "mergeCategoryH existingPages c h =
     (let em = existingMapH h (categoryPages existingPages (fst c))
      in foldl (\<lambda>h' r. mergePageH em r h') h (snd c))"

definition mergePagesH :: "(string \<times> ref list) list \<Rightarrow> (string \<times> ref list) list \<Rightarrow> heap \<Rightarrow> heap" where
  "mergePagesH existingPages mergedPages h =
     foldl (\<lambda>h' c. mergeCategoryH existingPages c h') h mergedPages"

fun formPathsH :: "urlParser \<Rightarrow> heap \<Rightarrow> ref list \<Rightarrow> error + string list" where
  "formPathsH P h [] = Inr []"
| "formPathsH P h (r # rs) =
     (case formObjs h r of
        None \<Rightarrow> formPathsH P h rs
      | Some f \<Rightarrow>
          (case P (action f) of
             None \<Rightarrow> Inl TypeError
           | Some u \<Rightarrow>
               (case formPathsH P h rs of
                  Inl e \<Rightarrow> Inl e
                | Inr ps \<Rightarrow> Inr (pathname u # ps))))"

text \<open>
  \<^verbatim>\<open>newForm.customTestData = existingForm.customTestData\<close>, written to the object of the new form.
\<close>

definition mergeFormH :: "urlParser \<Rightarrow> ref list \<Rightarrow> ref \<Rightarrow> heap \<Rightarrow> heap" where
  "mergeFormH P existingForms r h =
     (case formObjs h r of
        None \<Rightarrow> h
      | Some newForm \<Rightarrow>
          (case find (\<lambda>er. case formObjs h er of
                              None \<Rightarrow> False
                            | Some f \<Rightarrow> formPath P f = formPath P newForm) existingForms of
             None \<Rightarrow> h
           | Some er \<Rightarrow>
               (case formObjs h er of
                  None \<Rightarrow> h
                | Some existingForm \<Rightarrow>
                    if truthy (customTestData existingForm)
                    then h\<lparr>formObjs := (formObjs h)
                              (r \<mapsto> newForm\<lparr>customTestData := customTestData existingForm\<rparr>)\<rparr>
                    else h)))"

definition mergeFormsH :: "urlParser \<Rightarrow> ref list \<Rightarrow> ref list \<Rightarrow> heap \<Rightarrow> heap" where
  "mergeFormsH P existingForms newForms h =
     foldl (\<lambda>h' r. mergeFormH P existingForms r h') h newForms"

definition countNewPagesH :: "heap \<Rightarrow> (string \<times> ref list) list \<Rightarrow> (string \<times> ref list) list \<Rightarrow> nat" where
  "countNewPagesH h existingPages mergedPages =
     length (filter (\<lambda>p. path p \<notin> set (map path (derefPages h (allRefs existingPages))))
                    (derefPages h (allRefs mergedPages)))"

text \<open>
  \<^verbatim>\<open>merged.updateHistory = existing.updateHistory || []\<close>: the array of the existing
  knowledge itself, or a new empty array.
\<close>

definition historyArray :: "ref option \<Rightarrow> heap \<Rightarrow> ref \<times> heap" where
  "historyArray existingHistory h =
     (case existingHistory of
        Some r \<Rightarrow> (r, h)
      | None \<Rightarrow>
          (nextRef h, h\<lparr>historyArrs := (historyArrs h)(nextRef h \<mapsto> []), nextRef := nextRef h + 1\<rparr>))"

text \<open>
  \<^verbatim>\<open>merged.updateHistory.push(entry)\<close>.
\<close>

definition pushHistory :: "ref \<Rightarrow> historyEntry \<Rightarrow> heap \<Rightarrow> heap" where
  "pushHistory r entry h =
     h\<lparr>historyArrs := (historyArrs h)
          (r \<mapsto> (case historyArrs h r of None \<Rightarrow> [] | Some es \<Rightarrow> es) @ [entry])\<rparr>"

text \<open>
  The call: the result is the merged object (a copy of the properties of \<open>newAnalysis\<close>,
  three of them replaced) or the error, and the store after the call.
\<close>

definition mergeKnowledgeH ::
  "urlParser \<Rightarrow> string \<Rightarrow> ('u, 'o) knowledgeRef \<Rightarrow> ('v, 'q) knowledgeRef \<Rightarrow> heap
     \<Rightarrow> (error + ('v, 'q) knowledgeRef) \<times> heap" where
  "mergeKnowledgeH P now existing newAnalysis h =
     (let mergedVersion = bumpVersion (version existing);
          h1 = mergePagesH (pages existing) (pages newAnalysis) h
      in case formPathsH P h1 (forms existing) of
           Inl e \<Rightarrow> (Inl e, h1)
         | Inr existingFormPaths \<Rightarrow>
             (case formPathsH P h1 (forms newAnalysis) of
                Inl e \<Rightarrow> (Inl e, h1)
              | Inr newFormPaths \<Rightarrow>
                  (let removed = filter (\<lambda>p. p \<notin> set newFormPaths) (dedup [] existingFormPaths);
                       h2 = mergeFormsH P (forms existing) (forms newAnalysis) h1;
                       (historyRef, h3) = historyArray (updateHistory existing) h2;
                       entry = \<lparr> date = now,
                                 previousVersion = version existing,
                                 newVersion = mergedVersion,
                                 pagesAdded = countNewPagesH h3 (pages existing) (pages newAnalysis),
                                 formsAdded = int (length (forms newAnalysis))
                                              - int (length (forms existing)),
                                 flowsAdded = int (length (userFlows newAnalysis))
                                              - int (length (userFlows existing)) \<rparr>
                   in (Inr (newAnalysis
                              \<lparr> version := mergedVersion,
                                removedForms := Some removed,
                                updateHistory := Some historyRef \<rparr>),
                       pushHistory historyRef entry h3))))"

text \<open>
  The pages that a map of references stands for.
\<close>

definition valueMap :: "(string \<rightharpoonup> ref) \<Rightarrow> heap \<Rightarrow> (string \<rightharpoonup> kpage)" where
  "valueMap em h k = (case em k of None \<Rightarrow> None | Some er \<Rightarrow> pageObjs h er)"

lemma mergePageH_frame:
  "formObjs (mergePageH em r h) = formObjs h"
  "historyArrs (mergePageH em r h) = historyArrs h"
  "nextRef (mergePageH em r h) = nextRef h"
  "q \<noteq> r \<Longrightarrow> pageObjs (mergePageH em r h) q = pageObjs h q"
  by (simp_all add: mergePageH_def split: option.splits)

lemma mergePageH_at:
  "pageObjs (mergePageH em r h) r = map_option (mergePage (valueMap em h)) (pageObjs h r)"
  by (simp add: mergePageH_def mergePage_def valueMap_def split: option.splits)

lemma mergePage_cong:
  "em (path p) = em' (path p) \<Longrightarrow> mergePage em p = mergePage em' p"
  by (simp add: mergePage_def)

lemma fold_mergePageH:
  assumes "distinct newRefs" and "\<forall>k er. em k = Some er \<longrightarrow> er \<notin> set newRefs"
  shows "pageObjs (foldl (\<lambda>h' r. mergePageH em r h') h newRefs) q
           = (if q \<in> set newRefs then map_option (mergePage (valueMap em h)) (pageObjs h q)
              else pageObjs h q)"
  using assms
proof (induction newRefs arbitrary: h)
  case Nil
  show ?case by simp
next
  case (Cons r rs)
  let ?h1 = "mergePageH em r h"
  have vm: "valueMap em ?h1 = valueMap em h"
  proof
    fix k show "valueMap em ?h1 k = valueMap em h k"
      using Cons.prems(2) by (auto simp: valueMap_def mergePageH_frame split: option.splits)
  qed
  have ih: "pageObjs (foldl (\<lambda>h' r. mergePageH em r h') ?h1 rs) q
           = (if q \<in> set rs then map_option (mergePage (valueMap em ?h1)) (pageObjs ?h1 q)
              else pageObjs ?h1 q)"
    using Cons.prems by (intro Cons.IH) auto
  show ?case
  proof (cases "q = r")
    case True
    with Cons.prems(1) have "q \<notin> set rs" by simp
    with ih True show ?thesis by (simp add: mergePageH_at)
  next
    case False
    with ih vm show ?thesis by (simp add: mergePageH_frame)
  qed
qed

lemma fold_mergePageH_frame:
  "formObjs (foldl (\<lambda>h' r. mergePageH em r h') h newRefs) = formObjs h
   \<and> historyArrs (foldl (\<lambda>h' r. mergePageH em r h') h newRefs) = historyArrs h
   \<and> nextRef (foldl (\<lambda>h' r. mergePageH em r h') h newRefs) = nextRef h"
  by (induction newRefs arbitrary: h) (simp_all add: mergePageH_frame)

lemma derefPages_snoc:
  "derefPages h (refs @ [r])
     = derefPages h refs @ (case pageObjs h r of None \<Rightarrow> [] | Some p \<Rightarrow> [p])"
  by (simp add: derefPages_def map_filter_def split: option.splits)

lemma existingMapH_snoc:
  "existingMapH h (refs @ [r])
     = (case pageObjs h r of None \<Rightarrow> existingMapH h refs
        | Some p \<Rightarrow> (existingMapH h refs)(path p \<mapsto> r))"
  unfolding existingMapH_def by simp

lemma existingMapH_range:
  "existingMapH h refs k = Some er \<Longrightarrow> er \<in> set refs"
  by (induction refs arbitrary: er rule: rev_induct)
     (auto simp: existingMapH_def existingMapH_snoc split: option.splits if_splits)

lemma existingMapH_value:
  "valueMap (existingMapH h refs) h = existingMap (derefPages h refs)"
proof (induction refs rule: rev_induct)
  case Nil
  show ?case by (auto simp: valueMap_def existingMapH_def existingMap_def derefPages_def map_filter_def)
next
  case (snoc r refs)
  show ?case
  proof (cases "pageObjs h r")
    case None
    with snoc show ?thesis by (simp add: existingMapH_snoc derefPages_snoc)
  next
    case (Some p)
    show ?thesis
    proof
      fix k
      from snoc have ih: "valueMap (existingMapH h refs) h k = existingMap (derefPages h refs) k"
        by simp
      show "valueMap (existingMapH h (refs @ [r])) h k = existingMap (derefPages h (refs @ [r])) k"
      proof (cases "k = path p")
        case True
        with Some show ?thesis
          by (simp add: existingMapH_snoc derefPages_snoc existingMap_snoc valueMap_def)
      next
        case False
        with Some ih show ?thesis
          by (simp add: existingMapH_snoc derefPages_snoc existingMap_snoc valueMap_def)
      qed
    qed
  qed
qed

lemma derefPages_cong:
  "\<forall>r \<in> set refs. pageObjs h' r = pageObjs h r \<Longrightarrow> derefPages h' refs = derefPages h refs"
  by (induction refs) (auto simp: derefPages_def map_filter_def)

lemma mergeCategoryH_pages:
  assumes "distinct newRefs" and "set newRefs \<inter> set (categoryPages ex category) = {}"
  shows "pageObjs (mergeCategoryH ex (category, newRefs) h) q
           = (if q \<in> set newRefs
              then map_option (mergePage (existingMap (derefPages h (categoryPages ex category))))
                     (pageObjs h q)
              else pageObjs h q)"
proof -
  let ?em = "existingMapH h (categoryPages ex category)"
  have "\<forall>k er. ?em k = Some er \<longrightarrow> er \<notin> set newRefs"
    using assms(2) by (auto dest: existingMapH_range)
  from fold_mergePageH [OF assms(1) this, of h q]
  show ?thesis by (simp add: mergeCategoryH_def existingMapH_value)
qed

lemma mergeCategoryH_frame:
  "formObjs (mergeCategoryH ex c h) = formObjs h
   \<and> historyArrs (mergeCategoryH ex c h) = historyArrs h
   \<and> nextRef (mergeCategoryH ex c h) = nextRef h"
  by (simp add: mergeCategoryH_def fold_mergePageH_frame)

lemma mergePagesH_frame:
  "formObjs (mergePagesH ex cs h) = formObjs h
   \<and> historyArrs (mergePagesH ex cs h) = historyArrs h
   \<and> nextRef (mergePagesH ex cs h) = nextRef h"
  unfolding mergePagesH_def
  by (induction cs arbitrary: h) (simp_all add: mergeCategoryH_frame)

text \<open>
  The category that lists a page object, if any.
\<close>

definition categoryOf :: "(string \<times> ref list) list \<Rightarrow> ref \<Rightarrow> string option" where
  "categoryOf cs q = map_option fst (find (\<lambda>c. q \<in> set (snd c)) cs)"

lemma mergePagesH_pages:
  assumes "distinct (allRefs cs)" and "set (allRefs cs) \<inter> set (allRefs ex) = {}"
  shows "pageObjs (mergePagesH ex cs h) q
           = (case categoryOf cs q of
                None \<Rightarrow> pageObjs h q
              | Some category \<Rightarrow>
                  map_option (mergePage (existingMap (derefPages h (categoryPages ex category))))
                    (pageObjs h q))"
  using assms
proof (induction cs arbitrary: h)
  case Nil
  show ?case by (simp add: mergePagesH_def categoryOf_def)
next
  case (Cons c cs)
  obtain category newRefs where c: "c = (category, newRefs)" by (cases c)
  let ?h1 = "mergeCategoryH ex c h"
  have sub: "\<And>cat. set (categoryPages ex cat) \<subseteq> set (allRefs ex)"
  proof
    fix cat r assume r: "r \<in> set (categoryPages ex cat)"
    then obtain xs where "map_of ex cat = Some xs" and "r \<in> set xs"
      by (cases "map_of ex cat") (auto simp: categoryPages_def)
    then have "(cat, xs) \<in> set ex" by (auto dest: map_of_SomeD)
    with \<open>r \<in> set xs\<close> show "r \<in> set (allRefs ex)" by (force simp: allRefs_def)
  qed
  have d: "distinct newRefs" "distinct (allRefs cs)" "set newRefs \<inter> set (allRefs cs) = {}"
    using Cons.prems(1) by (auto simp: allRefs_def c)
  have dis: "set newRefs \<inter> set (allRefs ex) = {}" "set (allRefs cs) \<inter> set (allRefs ex) = {}"
    using Cons.prems(2) by (auto simp: allRefs_def c)
  have h1: "\<And>r. pageObjs ?h1 r
           = (if r \<in> set newRefs
              then map_option (mergePage (existingMap (derefPages h (categoryPages ex category))))
                     (pageObjs h r)
              else pageObjs h r)"
    unfolding c using d(1) dis(1) sub [of category]
    by (intro mergeCategoryH_pages) auto
  have keep: "\<And>cat. derefPages ?h1 (categoryPages ex cat) = derefPages h (categoryPages ex cat)"
  proof (rule derefPages_cong, rule ballI)
    fix cat r assume "r \<in> set (categoryPages ex cat)"
    with sub [of cat] dis(1) have "r \<notin> set newRefs" by auto
    then show "pageObjs ?h1 r = pageObjs h r" by (simp add: h1)
  qed
  have ih: "pageObjs (mergePagesH ex cs ?h1) q
           = (case categoryOf cs q of
                None \<Rightarrow> pageObjs ?h1 q
              | Some category \<Rightarrow>
                  map_option (mergePage (existingMap (derefPages ?h1 (categoryPages ex category))))
                    (pageObjs ?h1 q))"
    by (rule Cons.IH [OF d(2) dis(2)])
  have step: "mergePagesH ex (c # cs) h = mergePagesH ex cs ?h1"
    by (simp add: mergePagesH_def)
  show ?case
  proof (cases "q \<in> set newRefs")
    case True
    then have "q \<notin> set (allRefs cs)" using d(3) by auto
    then have none: "categoryOf cs q = None"
      by (auto simp: categoryOf_def allRefs_def find_None_iff)
    have here: "categoryOf (c # cs) q = Some category"
      using True by (simp add: categoryOf_def c)
    have "pageObjs (mergePagesH ex (c # cs) h) q = pageObjs ?h1 q"
      using ih none by (simp add: step)
    also have "\<dots> = map_option (mergePage (existingMap (derefPages h (categoryPages ex category))))
                        (pageObjs h q)"
      using True by (simp add: h1)
    finally show ?thesis by (simp add: here)
  next
    case False
    have there: "categoryOf (c # cs) q = categoryOf cs q"
      using False by (simp add: categoryOf_def c)
    have "pageObjs ?h1 q = pageObjs h q" using False by (simp add: h1)
    with ih show ?thesis by (simp add: step there keep split: option.split)
  qed
qed

lemma mergeFormH_frame:
  "pageObjs (mergeFormH P ex r h) = pageObjs h"
  "historyArrs (mergeFormH P ex r h) = historyArrs h"
  "nextRef (mergeFormH P ex r h) = nextRef h"
  "q \<noteq> r \<Longrightarrow> formObjs (mergeFormH P ex r h) q = formObjs h q"
  by (simp_all add: mergeFormH_def split: option.splits)

lemma find_deref:
  "(case find (\<lambda>er. case formObjs h er of None \<Rightarrow> False | Some f \<Rightarrow> Q f) refs of
      None \<Rightarrow> None | Some er \<Rightarrow> formObjs h er)
     = find Q (derefForms h refs)"
  by (induction refs) (auto simp: derefForms_def map_filter_def split: option.splits)

lemma mergeFormH_at:
  "formObjs (mergeFormH P ex r h) r = map_option (mergeForm P (derefForms h ex)) (formObjs h r)"
proof (cases "formObjs h r")
  case None
  then show ?thesis by (simp add: mergeFormH_def)
next
  case (Some newForm)
  let ?Q = "\<lambda>f. formPath P f = formPath P newForm"
  note fd = find_deref [of h ?Q ex, symmetric]
  show ?thesis
    using Some by (auto simp: mergeFormH_def mergeForm_def fd split: option.splits)
qed

lemma derefForms_cong:
  "\<forall>r \<in> set refs. formObjs h' r = formObjs h r \<Longrightarrow> derefForms h' refs = derefForms h refs"
  by (induction refs) (auto simp: derefForms_def map_filter_def)

lemma mergeFormsH_forms:
  assumes "distinct newRefs" and "set newRefs \<inter> set ex = {}"
  shows "formObjs (mergeFormsH P ex newRefs h) q
           = (if q \<in> set newRefs then map_option (mergeForm P (derefForms h ex)) (formObjs h q)
              else formObjs h q)"
  using assms
proof (induction newRefs arbitrary: h)
  case Nil
  show ?case by (simp add: mergeFormsH_def)
next
  case (Cons r rs)
  let ?h1 = "mergeFormH P ex r h"
  have keep: "derefForms ?h1 ex = derefForms h ex"
  proof (rule derefForms_cong, rule ballI)
    fix q assume "q \<in> set ex"
    with Cons.prems(2) have "q \<noteq> r" by auto
    then show "formObjs ?h1 q = formObjs h q" by (rule mergeFormH_frame)
  qed
  have ih: "formObjs (mergeFormsH P ex rs ?h1) q
           = (if q \<in> set rs then map_option (mergeForm P (derefForms ?h1 ex)) (formObjs ?h1 q)
              else formObjs ?h1 q)"
    using Cons.prems by (intro Cons.IH) auto
  have step: "mergeFormsH P ex (r # rs) h = mergeFormsH P ex rs ?h1"
    by (simp add: mergeFormsH_def)
  show ?case
  proof (cases "q = r")
    case True
    with Cons.prems(1) have "q \<notin> set rs" by simp
    with ih True show ?thesis by (simp add: step mergeFormH_at)
  next
    case False
    with ih keep show ?thesis by (simp add: step mergeFormH_frame)
  qed
qed

lemma mergeFormsH_frame:
  "pageObjs (mergeFormsH P ex newRefs h) = pageObjs h
   \<and> historyArrs (mergeFormsH P ex newRefs h) = historyArrs h
   \<and> nextRef (mergeFormsH P ex newRefs h) = nextRef h"
  unfolding mergeFormsH_def
  by (induction newRefs arbitrary: h) (simp_all add: mergeFormH_frame)

lemma mergeKnowledgeH_result:
  assumes "mergeKnowledgeH P now existing newAnalysis h = (Inr merged, h')"
  shows "\<exists>entry.
           merged = newAnalysis
             \<lparr> version := bumpVersion (version existing),
               removedForms := removedForms merged,
               updateHistory := Some (fst (historyArray (updateHistory existing)
                  (mergeFormsH P (forms existing) (forms newAnalysis)
                     (mergePagesH (pages existing) (pages newAnalysis) h)))) \<rparr>
         \<and> previousVersion entry = version existing
         \<and> newVersion entry = bumpVersion (version existing)
         \<and> date entry = now
         \<and> h' = pushHistory
                  (fst (historyArray (updateHistory existing)
                     (mergeFormsH P (forms existing) (forms newAnalysis)
                        (mergePagesH (pages existing) (pages newAnalysis) h))))
                  entry
                  (snd (historyArray (updateHistory existing)
                     (mergeFormsH P (forms existing) (forms newAnalysis)
                        (mergePagesH (pages existing) (pages newAnalysis) h))))"
proof -
  let ?h1 = "mergePagesH (pages existing) (pages newAnalysis) h"
  let ?ha = "historyArray (updateHistory existing)
               (mergeFormsH P (forms existing) (forms newAnalysis) ?h1)"
  let ?entry = "\<lparr> date = now,
                   previousVersion = version existing,
                   newVersion = bumpVersion (version existing),
                   pagesAdded = countNewPagesH (snd ?ha) (pages existing) (pages newAnalysis),
                   formsAdded = int (length (forms newAnalysis)) - int (length (forms existing)),
                   flowsAdded = int (length (userFlows newAnalysis))
                                - int (length (userFlows existing)) \<rparr>"
  from assms obtain xs ys where "formPathsH P ?h1 (forms existing) = Inr xs"
    and "formPathsH P ?h1 (forms newAnalysis) = Inr ys"
    by (auto simp: mergeKnowledgeH_def Let_def split: sum.splits)
  with assms have "merged = newAnalysis
             \<lparr> version := bumpVersion (version existing),
               removedForms := Some (filter (\<lambda>p. p \<notin> set ys) (dedup [] xs)),
               updateHistory := Some (fst ?ha) \<rparr>"
    and "h' = pushHistory (fst ?ha) ?entry (snd ?ha)"
    by (auto simp: mergeKnowledgeH_def Let_def split: prod.splits)
  then show ?thesis by (intro exI [of _ ?entry]) simp
qed

text \<open>
  The two arguments share no page object and no form object, and the new analysis
  lists each of its objects once.
\<close>

definition separate :: "('u, 'o) knowledgeRef \<Rightarrow> ('v, 'q) knowledgeRef \<Rightarrow> bool" where
  "separate existing newAnalysis =
     (distinct (allRefs (pages newAnalysis))
      \<and> set (allRefs (pages newAnalysis)) \<inter> set (allRefs (pages existing)) = {}
      \<and> distinct (forms newAnalysis)
      \<and> set (forms newAnalysis) \<inter> set (forms existing) = {})"

text \<open>
  The knowledge that a knowledge object stands for in a store: every reference replaced
  by the object behind it.
\<close>

definition derefKnowledge :: "heap \<Rightarrow> ('u, 'o) knowledgeRef \<Rightarrow> ('u, 'o) appKnowledge" where
  "derefKnowledge h k =
     \<lparr> version = version k,
       pages = map (\<lambda>c. (fst c, derefPages h (snd c))) (pages k),
       forms = derefForms h (forms k),
       userFlows = userFlows k,
       updateHistory = (case updateHistory k of None \<Rightarrow> None | Some r \<Rightarrow> historyArrs h r),
       removedForms = removedForms k,
       others = others k \<rparr>"

lemma derefPages_append: "derefPages h (xs @ ys) = derefPages h xs @ derefPages h ys"
  by (simp add: derefPages_def map_filter_def)

lemma allPages_deref:
  "allPages (map (\<lambda>c. (fst c, derefPages h (snd c))) cs) = derefPages h (allRefs cs)"
  by (induction cs) (simp_all add: allPages_def allRefs_def derefPages_append, simp add: derefPages_def map_filter_def)

lemma categoryPages_deref:
  "categoryPages (map (\<lambda>c. (fst c, derefPages h (snd c))) cs) category
     = derefPages h (categoryPages cs category)"
proof -
  have "map_of (map (\<lambda>c. (fst c, derefPages h (snd c))) cs) category
          = map_option (derefPages h) (map_of cs category)"
    by (induction cs) auto
  then show ?thesis
    by (simp add: categoryPages_def derefPages_def map_filter_def split: option.splits)
qed

lemma derefPages_map:
  assumes "\<forall>q \<in> set refs. pageObjs h' q = map_option f (pageObjs h q)"
  shows "derefPages h' refs = map f (derefPages h refs)"
  using assms by (induction refs) (auto simp: derefPages_def map_filter_def split: option.splits)

lemma derefForms_map:
  assumes "\<forall>q \<in> set refs. formObjs h' q = map_option f (formObjs h q)"
  shows "derefForms h' refs = map f (derefForms h refs)"
  using assms by (induction refs) (auto simp: derefForms_def map_filter_def split: option.splits)

lemma formPathsH_deref:
  "formPathsH P h refs = formPaths P (derefForms h refs)"
  by (induction refs) (auto simp: derefForms_def map_filter_def split: option.splits sum.splits)

lemma formPathsH_cong:
  "formObjs h' = formObjs h \<Longrightarrow> formPathsH P h' refs = formPathsH P h refs"
  by (simp add: formPathsH_deref derefForms_def)

lemma categoryOf_entry:
  assumes "distinct (allRefs cs)" and "i < length cs" and "q \<in> set (snd (cs ! i))"
  shows "categoryOf cs q = Some (fst (cs ! i))"
  using assms
proof (induction cs arbitrary: i)
  case Nil
  then show ?case by simp
next
  case (Cons c cs)
  show ?case
  proof (cases i)
    case 0
    with Cons.prems show ?thesis by (simp add: categoryOf_def)
  next
    case (Suc j)
    with Cons.prems have j: "j < length cs" "q \<in> set (snd (cs ! j))" by simp_all
    then have "q \<in> set (allRefs cs)" by (auto simp: allRefs_def intro!: bexI [of _ "cs ! j"])
    with Cons.prems(1) have "q \<notin> set (snd c)" by (auto simp: allRefs_def)
    moreover have "categoryOf cs q = Some (fst (cs ! j))"
      using Cons.IH [OF _ j] Cons.prems(1) by (simp add: allRefs_def)
    ultimately show ?thesis using Suc by (simp add: categoryOf_def)
  qed
qed

lemma mergedPages_deref:
  assumes d: "distinct (allRefs cs)"
    and pg: "\<forall>q. pageObjs h' q
                  = (case categoryOf cs q of
                       None \<Rightarrow> pageObjs h q
                     | Some category \<Rightarrow>
                         map_option (mergePage (existingMap (derefPages h (categoryPages ex category))))
                           (pageObjs h q))"
  shows "map (\<lambda>c. (fst c, derefPages h' (snd c))) cs
           = mergePages (map (\<lambda>c. (fst c, derefPages h (snd c))) ex)
               (map (\<lambda>c. (fst c, derefPages h (snd c))) cs)"
proof (rule nth_equalityI)
  show "length (map (\<lambda>c. (fst c, derefPages h' (snd c))) cs)
          = length (mergePages (map (\<lambda>c. (fst c, derefPages h (snd c))) ex)
               (map (\<lambda>c. (fst c, derefPages h (snd c))) cs))"
    by (simp add: mergePages_def)
next
  fix i assume "i < length (map (\<lambda>c. (fst c, derefPages h' (snd c))) cs)"
  then have i: "i < length cs" by simp
  let ?cat = "fst (cs ! i)"
  let ?f = "mergePage (existingMap (derefPages h (categoryPages ex ?cat)))"
  have "\<forall>q \<in> set (snd (cs ! i)). pageObjs h' q = map_option ?f (pageObjs h q)"
  proof
    fix q assume "q \<in> set (snd (cs ! i))"
    from categoryOf_entry [OF d i this] pg show "pageObjs h' q = map_option ?f (pageObjs h q)"
      by simp
  qed
  then have "derefPages h' (snd (cs ! i)) = map ?f (derefPages h (snd (cs ! i)))"
    by (rule derefPages_map)
  with i show "map (\<lambda>c. (fst c, derefPages h' (snd c))) cs ! i
          = mergePages (map (\<lambda>c. (fst c, derefPages h (snd c))) ex)
               (map (\<lambda>c. (fst c, derefPages h (snd c))) cs) ! i"
    by (simp add: mergePages_def categoryPages_deref)
qed

text \<open>
  Every form reference of a knowledge object points to an object.
\<close>

definition allocated :: "heap \<Rightarrow> ('u, 'o) knowledgeRef \<Rightarrow> bool" where
  "allocated h k = list_all (\<lambda>r. formObjs h r \<noteq> None) (forms k)"

lemma derefForms_length:
  "list_all (\<lambda>r. formObjs h r \<noteq> None) refs \<Longrightarrow> length (derefForms h refs) = length refs"
  by (induction refs) (auto simp: derefForms_def map_filter_def)

lemma categoryOf_None:
  "q \<notin> set (allRefs cs) \<Longrightarrow> categoryOf cs q = None"
  by (induction cs) (auto simp: categoryOf_def allRefs_def)

text \<open>
  The merge on a store computes the merge on values: on arguments that share no object,
  the result, read in the store after the call, is the result of \<open>mergeKnowledge\<close> on the
  arguments read in the store before the call, and the error is the same.
\<close>

lemma mergeKnowledgeH_refines:
  assumes run: "mergeKnowledgeH P now existing newAnalysis h = (r, h')"
    and sep: "separate existing newAnalysis"
    and al: "allocated h existing" "allocated h newAnalysis"
  shows "mergeKnowledge P now (derefKnowledge h existing) (derefKnowledge h newAnalysis)
           = map_sum id (derefKnowledge h') r"
proof -
  let ?ex = "derefKnowledge h existing" and ?new = "derefKnowledge h newAnalysis"
  let ?h1 = "mergePagesH (pages existing) (pages newAnalysis) h"
  let ?h2 = "mergeFormsH P (forms existing) (forms newAnalysis) ?h1"
  from sep have d: "distinct (allRefs (pages newAnalysis))"
    "set (allRefs (pages newAnalysis)) \<inter> set (allRefs (pages existing)) = {}"
    "distinct (forms newAnalysis)" "set (forms newAnalysis) \<inter> set (forms existing) = {}"
    by (simp_all add: separate_def)
  have f1: "formObjs ?h1 = formObjs h" by (simp add: mergePagesH_frame)
  have fpe: "formPathsH P ?h1 (forms existing) = formPaths P (forms ?ex)"
    by (simp add: formPathsH_deref derefForms_def f1 derefKnowledge_def)
  have fpn: "formPathsH P ?h1 (forms newAnalysis) = formPaths P (forms ?new)"
    by (simp add: formPathsH_deref derefForms_def f1 derefKnowledge_def)
  show ?thesis
  proof (cases r)
    case (Inl e)
    with run have "formPathsH P ?h1 (forms existing) = Inl e
        \<or> (\<exists>xs. formPathsH P ?h1 (forms existing) = Inr xs
              \<and> formPathsH P ?h1 (forms newAnalysis) = Inl e)"
      by (auto simp: mergeKnowledgeH_def Let_def split: sum.splits prod.splits)
    with Inl show ?thesis
      by (auto simp: mergeKnowledge_def Let_def fpe fpn)
  next
    case (Inr merged)
    obtain historyRef h3 where ha: "historyArray (updateHistory existing) ?h2 = (historyRef, h3)"
      by (cases "historyArray (updateHistory existing) ?h2")
    let ?entry = "\<lparr> date = now,
                   previousVersion = version existing,
                   newVersion = bumpVersion (version existing),
                   pagesAdded = countNewPagesH h3 (pages existing) (pages newAnalysis),
                   formsAdded = int (length (forms newAnalysis)) - int (length (forms existing)),
                   flowsAdded = int (length (userFlows newAnalysis))
                                - int (length (userFlows existing)) \<rparr>"
    from run Inr obtain xs ys where xs: "formPathsH P ?h1 (forms existing) = Inr xs"
      and ys: "formPathsH P ?h1 (forms newAnalysis) = Inr ys"
      by (auto simp: mergeKnowledgeH_def Let_def split: sum.splits)
    with run Inr ha have m: "merged = newAnalysis
               \<lparr> version := bumpVersion (version existing),
                 removedForms := Some (filter (\<lambda>p. p \<notin> set ys) (dedup [] xs)),
                 updateHistory := Some historyRef \<rparr>"
      and h': "h' = pushHistory historyRef ?entry h3"
      by (auto simp: mergeKnowledgeH_def Let_def split: prod.splits)
    have objs: "pageObjs h' = pageObjs ?h1" "formObjs h' = formObjs ?h2" "pageObjs h3 = pageObjs ?h1"
      using ha by (auto simp: h' pushHistory_def historyArray_def mergeFormsH_frame split: option.splits)
    have pg: "\<forall>q. pageObjs ?h1 q
                  = (case categoryOf (pages newAnalysis) q of
                       None \<Rightarrow> pageObjs h q
                     | Some category \<Rightarrow>
                         map_option
                           (mergePage (existingMap
                              (derefPages h (categoryPages (pages existing) category))))
                           (pageObjs h q))"
      by (simp only: mergePagesH_pages [OF d(1,2)]) simp
    have pages: "map (\<lambda>c. (fst c, derefPages ?h1 (snd c))) (pages newAnalysis)
                   = mergePages (pages ?ex) (pages ?new)"
      using mergedPages_deref [OF d(1) pg] by (simp add: derefKnowledge_def)
    have df: "derefForms ?h1 (forms existing) = derefForms h (forms existing)"
      by (simp add: derefForms_def f1)
    have "\<forall>q \<in> set (forms newAnalysis). formObjs ?h2 q
            = map_option (mergeForm P (derefForms h (forms existing))) (formObjs h q)"
      by (simp only: mergeFormsH_forms [OF d(3,4)] df f1) simp
    then have forms: "derefForms ?h2 (forms newAnalysis)
                        = map (mergeForm P (forms ?ex)) (forms ?new)"
      by (simp add: derefForms_map derefKnowledge_def)
    have exPages: "derefPages ?h1 (allRefs (pages existing)) = derefPages h (allRefs (pages existing))"
    proof (rule derefPages_cong, rule ballI)
      fix q assume "q \<in> set (allRefs (pages existing))"
      with d(2) have "q \<notin> set (allRefs (pages newAnalysis))" by auto
      with pg show "pageObjs ?h1 q = pageObjs h q" by (simp add: categoryOf_None)
    qed
    have d3: "derefPages h3 = derefPages ?h1" by (rule ext) (simp add: derefPages_def objs)
    have count: "countNewPagesH h3 (pages existing) (pages newAnalysis)
                   = countNewPages (pages ?ex) (mergePages (pages ?ex) (pages ?new))"
      unfolding countNewPagesH_def countNewPages_def pages [symmetric] d3 exPages
      by (simp add: derefKnowledge_def allPages_deref)
    have len: "int (length (map (mergeForm P (forms ?ex)) (forms ?new))) = int (length (forms newAnalysis))"
      "length (forms ?ex) = length (forms existing)"
      using al by (simp_all add: allocated_def derefKnowledge_def derefForms_length)
    have hist2: "historyArrs ?h2 = historyArrs h"
      by (simp add: mergeFormsH_frame mergePagesH_frame)
    have hist: "historyArrs h' historyRef
                  = Some ((case updateHistory ?ex of None \<Rightarrow> [] | Some es \<Rightarrow> es) @ [?entry])"
      using ha hist2
      by (auto simp: h' pushHistory_def historyArray_def derefKnowledge_def split: option.splits)
    have paths: "formPaths P (forms ?ex) = Inr xs" "formPaths P (forms ?new) = Inr ys"
      using xs ys fpe fpn by simp_all
    have dp: "derefPages h' = derefPages ?h1" by (rule ext) (simp add: derefPages_def objs)
    have dfm: "derefForms h' = derefForms ?h2" by (rule ext) (simp add: derefForms_def objs)
    have lhs: "mergeKnowledge P now ?ex ?new
          = Inr (?new
                        \<lparr> version := bumpVersion (version existing),
                          pages := mergePages (pages ?ex) (pages ?new),
                          forms := map (mergeForm P (forms ?ex)) (forms ?new),
                          removedForms := Some (filter (\<lambda>p. p \<notin> set ys) (dedup [] xs)),
                          updateHistory :=
                            Some ((case updateHistory ?ex of None \<Rightarrow> [] | Some es \<Rightarrow> es)
                                  @ [?entry]) \<rparr>)"
      unfolding mergeKnowledge_def Let_def paths sum.case count len
      by (simp add: derefKnowledge_def)
    have rhs: "derefKnowledge h' merged = ?new
                        \<lparr> version := bumpVersion (version existing),
                          pages := mergePages (pages ?ex) (pages ?new),
                          forms := map (mergeForm P (forms ?ex)) (forms ?new),
                          removedForms := Some (filter (\<lambda>p. p \<notin> set ys) (dedup [] xs)),
                          updateHistory :=
                            Some ((case updateHistory ?ex of None \<Rightarrow> [] | Some es \<Rightarrow> es)
                                  @ [?entry]) \<rparr>"
      unfolding pages [symmetric] forms [symmetric]
      by (subst m) (simp add: derefKnowledge_def dp dfm hist)
    from lhs rhs Inr show ?thesis by simp
  qed
qed

section \<open>Examples\<close>

subsection \<open>A small site for the examples\<close>

text \<open>
  A stand-in for the platform's URL parser, enough for the URLs of the examples:
  \<^verbatim>\<open>http://host/path#fragment\<close>.
\<close>

definition demoParser :: urlParser where
  "demoParser s =
     (if startsWith s ''http://'' then
        (let rest = drop 7 s;
             host = takeWhile (\<lambda>c. c \<noteq> CHR ''/'' \<and> c \<noteq> CHR ''#'') rest;
             tail = dropWhile (\<lambda>c. c \<noteq> CHR ''/'' \<and> c \<noteq> CHR ''#'') rest;
             p = takeWhile (\<lambda>c. c \<noteq> CHR ''#'') tail;
             h = dropWhile (\<lambda>c. c \<noteq> CHR ''#'') tail
         in if host = [] then None
            else Some \<lparr> hostname = host,
                        pathname = (if p = [] then ''/'' else p),
                        hash = (if h = ''#'' then [] else h) \<rparr>)
      else None)"

text \<open>
  The pages of the site: the start page links to \<^verbatim>\<open>/a\<close>, to another host and to a PDF;
  \<^verbatim>\<open>/a\<close> links to \<^verbatim>\<open>/b\<close>, to an anchor of itself and back to the start; on \<^verbatim>\<open>/b\<close> the
  extraction of the forms throws; \<^verbatim>\<open>/c\<close> answers 304; everything else answers 404.
\<close>

definition okPage :: "string \<Rightarrow> string list \<Rightarrow> browserPage" where
  "okPage ttl hrefs =
     \<lparr> response = Some 200, settles = True,
       domData = Returns \<lparr> title = ttl, heading = [], description = [], bodyText = [] \<rparr>,
       domForms = Returns [], domElements = Returns [], domHrefs = Returns hrefs \<rparr>"

definition demoSite :: browser where
  "demoSite u =
     (if u = ''http://app.test/'' then
        okPage ''Home'' [''http://app.test/a'', ''http://other.test/x'', ''http://app.test/report.pdf'']
      else if u = ''http://app.test/a'' then
        okPage ''A'' [''http://app.test/b'', ''http://app.test/a#sec'', ''http://app.test/'']
      else if u = ''http://app.test/b'' then
        (okPage ''B'' [''http://app.test/c''])\<lparr>domForms := Throws\<rparr>
      else if u = ''http://app.test/c'' then
        (okPage ''C'' [''http://app.test/d''])\<lparr>response := Some 304\<rparr>
      else (okPage [] [''http://app.test/e''])\<lparr>response := Some 404\<rparr>)"

definition demoConfig :: config where
  "demoConfig = \<lparr> cfg_targetUrl = ''http://app.test/'', cfg_maxDepth = Some 1, cfg_maxPages = None \<rparr>"

definition demoEngine :: engine where
  "demoEngine =
     \<lparr> targetUrl = ''http://app.test/'', baseDomain = ''app.test'', maxDepth = 1, maxPages = 50,
       visited = [], toVisit = [], discoveredPages = [], discoveredForms = [],
       interactiveElements = [], exploreLog = [] \<rparr>"

text \<open>The state after two passes of the loop.\<close>

definition demoAfter2 :: engine where
  "demoAfter2 = crawl_step demoParser demoSite (crawl_step demoParser demoSite (startState demoEngine))"

lemma demo_newEngine: "newEngine demoParser demoConfig = Some demoEngine"
  by code_simp

lemma demo_cond0: "crawl_cond (startState demoEngine)"
  by code_simp

lemma demo_cond1: "crawl_cond (crawl_step demoParser demoSite (startState demoEngine))"
  by code_simp

lemma demoAfter2_run: "run_state demoParser demoSite (startState demoEngine) demoAfter2"
  unfolding demoAfter2_def
  by (intro run_state.step run_state.start demo_cond0 demo_cond1)

definition demoFinal :: engine where
  "demoFinal = crawl demoParser demoSite (startState demoEngine)"



subsection \<open>Knowledge for the examples\<close>

text \<open>
  Pages, forms and knowledge for the examples of the merge.
\<close>

definition mkPage :: "string \<Rightarrow> json option \<Rightarrow> kpage" where
  "mkPage p c =
     \<lparr> title = [], heading = [], description = [], url = ''http://app.test'' @ p, path = p,
       pageName = [], pageType = ''page'', preview = [], customData = c \<rparr>"

definition mkForm :: "string \<Rightarrow> json option \<Rightarrow> kform" where
  "mkForm a c =
     \<lparr> formIndex = 0, action = a, form_method = ''post'', form_fields = [], buttons = [],
       fieldCount = 0, customTestData = c \<rparr>"

definition mkKnowledge ::
  "string \<Rightarrow> (string \<times> kpage list) list \<Rightarrow> kform list \<Rightarrow> (unit, unit) appKnowledge" where
  "mkKnowledge v ps fs =
     \<lparr> version = v, pages = ps, forms = fs, userFlows = [], updateHistory = None,
       removedForms = None, others = () \<rparr>"

text \<open>
  The pages and the forms of a merge that returned.
\<close>

definition pagesOf :: "error + ('u, 'o) appKnowledge \<Rightarrow> (string \<times> kpage list) list option" where
  "pagesOf r = (case r of Inl e \<Rightarrow> None | Inr merged \<Rightarrow> Some (pages merged))"

definition formsOf :: "error + ('u, 'o) appKnowledge \<Rightarrow> kform list option" where
  "formsOf r = (case r of Inl e \<Rightarrow> None | Inr merged \<Rightarrow> Some (forms merged))"

text \<open>
  An operator's note, \<^verbatim>\<open>{x: 1}\<close>.
\<close>

definition noteX :: json where
  "noteX = JObj [(''x'', JNum 1)]"

definition demoExisting :: "(unit, unit) appKnowledge" where
  "demoExisting =
     mkKnowledge ''1.0.0''
       [(''auth'', [mkPage ''/login'' (Some noteX)]),
        (''content'', [mkPage ''/'' None, mkPage ''/dashboard'' None])]
       [mkForm ''http://app.test/login'' (Some (JObj [(''email'', JStr ''qa@app.test'')]))]"

definition demoFresh :: "(unit, unit) appKnowledge" where
  "demoFresh =
     mkKnowledge []
       [(''auth'', [mkPage ''/login'' None]),
        (''content'', [mkPage ''/'' None, mkPage ''/dashboard'' None, mkPage ''/calendar'' None])]
       [mkForm ''http://app.test/login'' None]"

definition demoNow :: string where
  "demoNow = ''2025-10-24T09:00:00.000Z''"

text \<open>
  The merge of the example, as it should come out.
\<close>

definition demoMerged :: "(unit, unit) appKnowledge" where
  "demoMerged =
     \<lparr> version = ''1.1.0'',
       pages = [(''auth'', [mkPage ''/login'' (Some noteX)]),
                (''content'', [mkPage ''/'' None, mkPage ''/dashboard'' None, mkPage ''/calendar'' None])],
       forms = [mkForm ''http://app.test/login'' (Some (JObj [(''email'', JStr ''qa@app.test'')]))],
       userFlows = [],
       updateHistory = Some [\<lparr> date = demoNow, previousVersion = ''1.0.0'', newVersion = ''1.1.0'',
                                pagesAdded = 1, formsAdded = 0, flowsAdded = 0 \<rparr>],
       removedForms = Some [],
       others = () \<rparr>"

lemma demo_merge: "mergeKnowledge demoParser demoNow demoExisting demoFresh = Inr demoMerged"
  by code_simp

text \<open>
  A skill directory with its four files, and a generator that rewrites them.
\<close>

definition demoSkillPath :: filePath where
  "demoSkillPath = [''skills'', ''todoapp-testing'']"

definition demoFiles :: fileSystem where
  "demoFiles =
     [demoSkillPath \<mapsto> Dir,
      demoSkillPath @ [''SKILL.md''] \<mapsto> File ''skill v1'',
      demoSkillPath @ [''app-knowledge.json''] \<mapsto> File ''knowledge v1'',
      demoSkillPath @ [''test-patterns.js''] \<mapsto> File ''patterns v1'',
      demoSkillPath @ [''README.md''] \<mapsto> File ''readme v1'']"

definition demoGenerate ::
  "(unit, unit) appKnowledge \<Rightarrow> fileSystem \<Rightarrow> (failure + unit) \<times> fileSystem" where
  "demoGenerate k fs =
     (Inr (),
      fs(demoSkillPath @ [''SKILL.md''] \<mapsto> File (''skill v'' @ version k),
         demoSkillPath @ [''app-knowledge.json''] \<mapsto> File (''knowledge v'' @ version k),
         demoSkillPath @ [''test-patterns.js''] \<mapsto> File (''patterns v'' @ version k),
         demoSkillPath @ [''README.md''] \<mapsto> File (''readme v'' @ version k)))"

definition demoEnv :: "(unit, unit, unit, unit) updaterEnv" where
  "demoEnv =
     \<lparr> skillPath = demoSkillPath,
       parseKnowledge = (\<lambda>text. if text = ''knowledge v1'' then Some demoExisting else None),
       reexplore = (\<lambda>existing. Some demoFresh),
       generate = demoGenerate,
       urlOf = demoParser,
       mergeClock = demoNow,
       backupClock = ''2025-10-24T09:00:01.250Z'' \<rparr>"

text \<open>
  A second update, later on the same day, of the skill that the first update has written.
\<close>

definition demoEnvLater :: "(unit, unit, unit, unit) updaterEnv" where
  "demoEnvLater =
     demoEnv\<lparr> parseKnowledge := (\<lambda>text. if text = ''knowledge v1.1.0'' then Some demoMerged else None),
              backupClock := ''2025-10-24T17:30:00.000Z'' \<rparr>"

text \<open>
  The knowledge of the example in a store: the existing objects at 1 to 7, the new ones at 11 to 15.
\<close>

definition demoHeap :: heap where
  "demoHeap =
     \<lparr> pageObjs = [1 \<mapsto> mkPage ''/login'' (Some noteX),
                   2 \<mapsto> mkPage ''/'' None,
                   3 \<mapsto> mkPage ''/dashboard'' None,
                   11 \<mapsto> mkPage ''/login'' None,
                   12 \<mapsto> mkPage ''/'' None,
                   13 \<mapsto> mkPage ''/dashboard'' None,
                   14 \<mapsto> mkPage ''/calendar'' None],
       formObjs = [5 \<mapsto> mkForm ''http://app.test/login'' (Some (JObj [(''email'', JStr ''qa@app.test'')])),
                   15 \<mapsto> mkForm ''http://app.test/login'' None],
       historyArrs = [7 \<mapsto> [\<lparr> date = ''2025-10-01T08:00:00.000Z'', previousVersion = ''1.0.0'',
                                  newVersion = ''1.1.0'', pagesAdded = 0, formsAdded = 0,
                                  flowsAdded = 0 \<rparr>]],
       nextRef = 20 \<rparr>"

definition demoExistingRef :: "(unit, unit) knowledgeRef" where
  "demoExistingRef =
     \<lparr> version = ''1.1.0'', pages = [(''auth'', [1]), (''content'', [2, 3])], forms = [5],
       userFlows = [], updateHistory = Some 7, removedForms = None, others = () \<rparr>"

definition demoFreshRef :: "(unit, unit) knowledgeRef" where
  "demoFreshRef =
     \<lparr> version = [], pages = [(''auth'', [11]), (''content'', [12, 13, 14])], forms = [15],
       userFlows = [], updateHistory = None, removedForms = None, others = () \<rparr>"

definition demoMergedRef :: "(unit, unit) knowledgeRef" where
  "demoMergedRef =
     \<lparr> version = ''1.2.0'', pages = [(''auth'', [11]), (''content'', [12, 13, 14])], forms = [15],
       userFlows = [], updateHistory = Some 7, removedForms = Some [], others = () \<rparr>"

definition demoHeapAfter :: heap where
  "demoHeapAfter = snd (mergeKnowledgeH demoParser demoNow demoExistingRef demoFreshRef demoHeap)"

text \<open>
  On the example, the store after the call holds the merge of the values.
\<close>

lemma mergeKnowledgeH_refines_example:
  "separate demoExistingRef demoFreshRef
   \<and> allocated demoHeap demoExistingRef \<and> allocated demoHeap demoFreshRef
   \<and> mergeKnowledge demoParser demoNow
        (derefKnowledge demoHeap demoExistingRef) (derefKnowledge demoHeap demoFreshRef)
      = Inr (derefKnowledge demoHeapAfter demoMergedRef)"
proof -
  have s: "separate demoExistingRef demoFreshRef" by code_simp
  have a: "allocated demoHeap demoExistingRef" "allocated demoHeap demoFreshRef" by code_simp+
  have r: "fst (mergeKnowledgeH demoParser demoNow demoExistingRef demoFreshRef demoHeap)
             = Inr demoMergedRef"
    by code_simp
  have m: "mergeKnowledgeH demoParser demoNow demoExistingRef demoFreshRef demoHeap
             = (Inr demoMergedRef, demoHeapAfter)"
    unfolding demoHeapAfter_def r [symmetric] by simp
  from mergeKnowledgeH_refines [OF m s a] s a show ?thesis by simp
qed

section \<open>The claims\<close>

text \<open>
  Claim C1, as amended. A merge that returns keeps the categories, the pages and the
  forms of the new analysis, in their places and their order. When the existing knowledge
  lists, in the same category, a page with the path of a new page, and the page so
  recorded (the last one of that category, if several have the path) has a truthy
  \<^verbatim>\<open>customData\<close>, the merged page is the new page with that \<^verbatim>\<open>customData\<close>; every other
  merged page is the new page as it is. When an existing form has the action path of a
  new form, and the first such form has a truthy \<^verbatim>\<open>customTestData\<close>, the merged form is
  the new form with that \<^verbatim>\<open>customTestData\<close>; every other merged form is the new form as
  it is.
\<close>

theorem merge_keeps_customizations:
  assumes "mergeKnowledge P now existing newAnalysis = Inr merged"
  shows "length (pages merged) = length (pages newAnalysis)
       \<and> (\<forall>i category newPages.
            i < length (pages newAnalysis) \<and> pages newAnalysis ! i = (category, newPages)
            \<longrightarrow> (\<exists>mergedPages. pages merged ! i = (category, mergedPages)
                   \<and> length mergedPages = length newPages
                   \<and> (\<forall>j existingPage.
                         j < length newPages
                         \<and> lastWithPath (categoryPages (pages existing) category)
                               (path (newPages ! j)) = Some existingPage
                         \<and> truthy (customData existingPage)
                         \<longrightarrow> mergedPages ! j
                               = (newPages ! j)\<lparr>customData := customData existingPage\<rparr>)
                   \<and> (\<forall>j. j < length newPages
                         \<and> \<not> (\<exists>existingPage.
                                 lastWithPath (categoryPages (pages existing) category)
                                     (path (newPages ! j)) = Some existingPage
                                 \<and> truthy (customData existingPage))
                         \<longrightarrow> mergedPages ! j = newPages ! j)))
       \<and> length (forms merged) = length (forms newAnalysis)
       \<and> (\<forall>k existingForm.
            k < length (forms newAnalysis)
            \<and> find (\<lambda>f. formPath P f = formPath P (forms newAnalysis ! k)) (forms existing)
                = Some existingForm
            \<and> truthy (customTestData existingForm)
            \<longrightarrow> forms merged ! k
                = (forms newAnalysis ! k)\<lparr>customTestData := customTestData existingForm\<rparr>)
       \<and> (\<forall>k. k < length (forms newAnalysis)
            \<and> \<not> (\<exists>existingForm.
                    find (\<lambda>f. formPath P f = formPath P (forms newAnalysis ! k)) (forms existing)
                      = Some existingForm
                    \<and> truthy (customTestData existingForm))
            \<longrightarrow> forms merged ! k = forms newAnalysis ! k)"
proof -
  note f = mergeKnowledge_fields [OF assms]
  have pg: "\<forall>i category newPages.
            i < length (pages newAnalysis) \<and> pages newAnalysis ! i = (category, newPages)
            \<longrightarrow> (\<exists>mergedPages. pages merged ! i = (category, mergedPages)
                   \<and> length mergedPages = length newPages
                   \<and> (\<forall>j existingPage.
                         j < length newPages
                         \<and> lastWithPath (categoryPages (pages existing) category)
                               (path (newPages ! j)) = Some existingPage
                         \<and> truthy (customData existingPage)
                         \<longrightarrow> mergedPages ! j
                               = (newPages ! j)\<lparr>customData := customData existingPage\<rparr>)
                   \<and> (\<forall>j. j < length newPages
                         \<and> \<not> (\<exists>existingPage.
                                 lastWithPath (categoryPages (pages existing) category)
                                     (path (newPages ! j)) = Some existingPage
                                 \<and> truthy (customData existingPage))
                         \<longrightarrow> mergedPages ! j = newPages ! j))"
  proof (intro allI impI, elim conjE)
    fix i category newPages
    assume i: "i < length (pages newAnalysis)" and e: "pages newAnalysis ! i = (category, newPages)"
    let ?ex = "categoryPages (pages existing) category"
    let ?merged = "map (mergePage (existingMap ?ex)) newPages"
    have at: "pages merged ! i = (category, ?merged)"
      using i e by (simp add: f(1) mergePages_def)
    have kept: "\<forall>j existingPage.
                  j < length newPages
                  \<and> lastWithPath ?ex (path (newPages ! j)) = Some existingPage
                  \<and> truthy (customData existingPage)
                  \<longrightarrow> ?merged ! j = (newPages ! j)\<lparr>customData := customData existingPage\<rparr>"
      by (simp add: mergePage_def existingMap_lastWithPath)
    have same: "\<forall>j. j < length newPages
                  \<and> \<not> (\<exists>existingPage. lastWithPath ?ex (path (newPages ! j)) = Some existingPage
                          \<and> truthy (customData existingPage))
                  \<longrightarrow> ?merged ! j = newPages ! j"
      by (simp add: mergePage_def existingMap_lastWithPath split: option.split)
    from at kept same
    show "\<exists>mergedPages. pages merged ! i = (category, mergedPages)
                   \<and> length mergedPages = length newPages
                   \<and> (\<forall>j existingPage.
                         j < length newPages
                         \<and> lastWithPath ?ex (path (newPages ! j)) = Some existingPage
                         \<and> truthy (customData existingPage)
                         \<longrightarrow> mergedPages ! j
                               = (newPages ! j)\<lparr>customData := customData existingPage\<rparr>)
                   \<and> (\<forall>j. j < length newPages
                         \<and> \<not> (\<exists>existingPage.
                                 lastWithPath ?ex (path (newPages ! j)) = Some existingPage
                                 \<and> truthy (customData existingPage))
                         \<longrightarrow> mergedPages ! j = newPages ! j)"
      by (intro exI [of _ ?merged]) simp
  qed
  have fm: "\<forall>k existingForm.
            k < length (forms newAnalysis)
            \<and> find (\<lambda>f. formPath P f = formPath P (forms newAnalysis ! k)) (forms existing)
                = Some existingForm
            \<and> truthy (customTestData existingForm)
            \<longrightarrow> forms merged ! k
                = (forms newAnalysis ! k)\<lparr>customTestData := customTestData existingForm\<rparr>"
    by (simp add: f(2) mergeForm_def)
  have fs: "\<forall>k. k < length (forms newAnalysis)
            \<and> \<not> (\<exists>existingForm.
                    find (\<lambda>f. formPath P f = formPath P (forms newAnalysis ! k)) (forms existing)
                      = Some existingForm
                    \<and> truthy (customTestData existingForm))
            \<longrightarrow> forms merged ! k = forms newAnalysis ! k"
    by (simp add: f(2) mergeForm_def split: option.split)
  have len: "length (pages merged) = length (pages newAnalysis)"
    "length (forms merged) = length (forms newAnalysis)"
    by (simp_all add: f(1,2) mergePages_def)
  from pg fm fs len show ?thesis by blast
qed

theorem merge_keeps_customizations_witness:
  "mergeKnowledge demoParser demoNow demoExisting demoFresh = Inr demoMerged
   \<and> pages demoFresh ! 0 = (''auth'', [mkPage ''/login'' None])
   \<and> lastWithPath (categoryPages (pages demoExisting) ''auth'') ''/login''
       = Some (mkPage ''/login'' (Some noteX))
   \<and> truthy (Some noteX)
   \<and> (\<exists>mergedPages. pages demoMerged ! 0 = (''auth'', mergedPages)
         \<and> mergedPages ! 0 = mkPage ''/login'' (Some noteX))
   \<and> lastWithPath (categoryPages (pages demoExisting) ''content'') ''/calendar'' = None
   \<and> (\<exists>mergedPages. pages demoMerged ! 1 = (''content'', mergedPages)
         \<and> length mergedPages = 3
         \<and> mergedPages ! 2 = mkPage ''/calendar'' None)
   \<and> forms demoMerged ! 0
       = mkForm ''http://app.test/login'' (Some (JObj [(''email'', JStr ''qa@app.test'')]))"
proof -
  note kept = merge_keeps_customizations [OF demo_merge]
  have p0: "0 < length (pages demoFresh) \<and> pages demoFresh ! 0 = (''auth'', [mkPage ''/login'' None])"
    by code_simp
  have p1: "1 < length (pages demoFresh)
            \<and> pages demoFresh ! 1
                = (''content'', [mkPage ''/'' None, mkPage ''/dashboard'' None, mkPage ''/calendar'' None])"
    by code_simp
  have l: "lastWithPath (categoryPages (pages demoExisting) ''auth'') ''/login''
       = Some (mkPage ''/login'' (Some noteX))" by code_simp
  have n: "lastWithPath (categoryPages (pages demoExisting) ''content'') ''/calendar'' = None"
    by code_simp
  have t: "truthy (Some noteX)" by code_simp
  have f: "0 < length (forms demoFresh)
            \<and> forms demoFresh ! 0 = mkForm ''http://app.test/login'' None
            \<and> find (\<lambda>f. formPath demoParser f = formPath demoParser (forms demoFresh ! 0))
                  (forms demoExisting)
                = Some (mkForm ''http://app.test/login'' (Some (JObj [(''email'', JStr ''qa@app.test'')])))
            \<and> truthy (customTestData
                 (mkForm ''http://app.test/login'' (Some (JObj [(''email'', JStr ''qa@app.test'')]))))"
    by code_simp
  from kept p0 obtain auth where auth: "pages demoMerged ! 0 = (''auth'', auth)"
    and authKept: "\<forall>j existingPage.
           j < length [mkPage ''/login'' None]
           \<and> lastWithPath (categoryPages (pages demoExisting) ''auth'')
                 (path ([mkPage ''/login'' None] ! j)) = Some existingPage
           \<and> truthy (customData existingPage)
           \<longrightarrow> auth ! j = ([mkPage ''/login'' None] ! j)\<lparr>customData := customData existingPage\<rparr>"
    by blast
  from authKept [rule_format, of 0 "mkPage ''/login'' (Some noteX)"] l t
  have a0: "auth ! 0 = mkPage ''/login'' (Some noteX)" by (simp add: mkPage_def)
  from kept p1 obtain content where content: "pages demoMerged ! 1 = (''content'', content)"
    and len: "length content
                = length [mkPage ''/'' None, mkPage ''/dashboard'' None, mkPage ''/calendar'' None]"
    and contentSame: "\<forall>j. j < length [mkPage ''/'' None, mkPage ''/dashboard'' None, mkPage ''/calendar'' None]
           \<and> \<not> (\<exists>existingPage.
                   lastWithPath (categoryPages (pages demoExisting) ''content'')
                      (path ([mkPage ''/'' None, mkPage ''/dashboard'' None, mkPage ''/calendar'' None] ! j))
                     = Some existingPage
                   \<and> truthy (customData existingPage))
           \<longrightarrow> content ! j
               = [mkPage ''/'' None, mkPage ''/dashboard'' None, mkPage ''/calendar'' None] ! j"
    by blast
  from contentSame [rule_format, of 2] n
  have c2: "content ! 2 = mkPage ''/calendar'' None" by (simp add: mkPage_def)
  from kept have "\<forall>k existingForm.
            k < length (forms demoFresh)
            \<and> find (\<lambda>f. formPath demoParser f = formPath demoParser (forms demoFresh ! k))
                  (forms demoExisting) = Some existingForm
            \<and> truthy (customTestData existingForm)
            \<longrightarrow> forms demoMerged ! k
                = (forms demoFresh ! k)\<lparr>customTestData := customTestData existingForm\<rparr>"
    by blast
  from this [rule_format, of 0
      "mkForm ''http://app.test/login'' (Some (JObj [(''email'', JStr ''qa@app.test'')]))"] f
  have "forms demoMerged ! 0
       = (forms demoFresh ! 0)\<lparr>customTestData := customTestData
            (mkForm ''http://app.test/login'' (Some (JObj [(''email'', JStr ''qa@app.test'')])))\<rparr>"
    by blast
  moreover from f have "forms demoFresh ! 0 = mkForm ''http://app.test/login'' None" by blast
  ultimately have f0: "forms demoMerged ! 0
       = mkForm ''http://app.test/login'' (Some (JObj [(''email'', JStr ''qa@app.test'')]))"
    by (simp add: mkForm_def)
  from demo_merge p0 l t auth a0 n content len c2 f0 show ?thesis by simp
qed

text \<open>
  The claim as stated fails in four places. A page that has moved to another category
  loses its \<^verbatim>\<open>customData\<close>: pages are matched within one category. A \<^verbatim>\<open>customData\<close> of
  \<^verbatim>\<open>0\<close>, present and falsy, is not carried over. Of two existing pages with one path the
  last decides, and of two existing forms with one action path the first: the
  customization of the other one is dropped.
\<close>

theorem merge_keeps_customizations_counterexample:
  "pagesOf (mergeKnowledge demoParser demoNow
       (mkKnowledge ''1.0.0'' [(''content'', [mkPage ''/calendar'' (Some noteX)])] [])
       (mkKnowledge [] [(''forms'', [mkPage ''/calendar'' None])] []))
     = Some [(''forms'', [mkPage ''/calendar'' None])]
   \<and> pagesOf (mergeKnowledge demoParser demoNow
       (mkKnowledge ''1.0.0'' [(''content'', [mkPage ''/calendar'' (Some (JNum 0))])] [])
       (mkKnowledge [] [(''content'', [mkPage ''/calendar'' None])] []))
     = Some [(''content'', [mkPage ''/calendar'' None])]
   \<and> pagesOf (mergeKnowledge demoParser demoNow
       (mkKnowledge ''1.0.0'' [(''content'', [mkPage ''/item'' (Some noteX), mkPage ''/item'' None])] [])
       (mkKnowledge [] [(''content'', [mkPage ''/item'' None])] []))
     = Some [(''content'', [mkPage ''/item'' None])]
   \<and> formsOf (mergeKnowledge demoParser demoNow
       (mkKnowledge ''1.0.0'' []
          [mkForm ''http://app.test/search'' None, mkForm ''http://app.test/search'' (Some noteX)])
       (mkKnowledge [] [] [mkForm ''http://app.test/search'' None]))
     = Some [mkForm ''http://app.test/search'' None]"
proof -
  have 1: "pagesOf (mergeKnowledge demoParser demoNow
       (mkKnowledge ''1.0.0'' [(''content'', [mkPage ''/calendar'' (Some noteX)])] [])
       (mkKnowledge [] [(''forms'', [mkPage ''/calendar'' None])] []))
     = Some [(''forms'', [mkPage ''/calendar'' None])]" by code_simp
  have 2: "pagesOf (mergeKnowledge demoParser demoNow
       (mkKnowledge ''1.0.0'' [(''content'', [mkPage ''/calendar'' (Some (JNum 0))])] [])
       (mkKnowledge [] [(''content'', [mkPage ''/calendar'' None])] []))
     = Some [(''content'', [mkPage ''/calendar'' None])]" by code_simp
  have 3: "pagesOf (mergeKnowledge demoParser demoNow
       (mkKnowledge ''1.0.0'' [(''content'', [mkPage ''/item'' (Some noteX), mkPage ''/item'' None])] [])
       (mkKnowledge [] [(''content'', [mkPage ''/item'' None])] []))
     = Some [(''content'', [mkPage ''/item'' None])]" by code_simp
  have 4: "formsOf (mergeKnowledge demoParser demoNow
       (mkKnowledge ''1.0.0'' []
          [mkForm ''http://app.test/search'' None, mkForm ''http://app.test/search'' (Some noteX)])
       (mkKnowledge [] [] [mkForm ''http://app.test/search'' None]))
     = Some [mkForm ''http://app.test/search'' None]" by code_simp
  from 1 2 3 4 show ?thesis by blast
qed

text \<open>
  Claim C2, as amended. When the existing version splits at its dots into a major
  component, a minor component and the rest, major and minor being decimal numbers and
  the minor below \<open>2 ^ 53\<close>, the version of a merge that returns has the same components
  but for the minor, which is the decimal of the successor; the merged version is
  greater than the existing one.
\<close>

theorem version_bump:
  assumes "mergeKnowledge P now existing newAnalysis = Inr merged"
    and "split CHR ''.'' (version existing) = major # minor # rest"
    and "all_digits major" and "all_digits minor"
    and "digits_value 10 minor < 2 ^ 53"
  shows "version merged = join CHR ''.'' (major # decimal (digits_value 10 minor + 1) # rest)
       \<and> split CHR ''.'' (version merged) = major # decimal (digits_value 10 minor + 1) # rest
       \<and> all_digits (decimal (digits_value 10 minor + 1))
       \<and> digits_value 10 (decimal (digits_value 10 minor + 1)) = digits_value 10 minor + 1
       \<and> version_less (version existing) (version merged)"
proof -
  let ?n = "digits_value 10 minor"
  have nn: "0 \<le> ?n + 1" using digits_value_nonneg [of 10 minor] by simp
  note dec = decimal_props [OF nn]
  have v: "version merged = join CHR ''.'' (major # decimal (?n + 1) # rest)"
    using mergeKnowledge_version [OF assms(1)] bumpVersion_dotted [OF assms(2,4,5)] by simp
  have nodot: "\<forall>p \<in> set (major # decimal (?n + 1) # rest). CHR ''.'' \<notin> set p"
  proof
    fix p assume "p \<in> set (major # decimal (?n + 1) # rest)"
    then consider "p = decimal (?n + 1)" | "p \<in> set (major # minor # rest)" by auto
    then show "CHR ''.'' \<notin> set p"
    proof cases
      case 1
      with dec show ?thesis by (simp add: all_digits_no_dot)
    next
      case 2
      then have "p \<in> set (split CHR ''.'' (version existing))" by (simp add: assms(2))
      then show ?thesis by (rule split_parts)
    qed
  qed
  have s: "split CHR ''.'' (version merged) = major # decimal (?n + 1) # rest"
    unfolding v by (rule split_join [OF _ nodot]) simp
  have "version_less (version existing) (version merged)"
    using dec assms(3,4) by (simp add: version_less_def s assms(2))
  with v s dec show ?thesis by simp
qed

theorem version_bump_witness:
  "mergeKnowledge demoParser demoNow demoExisting demoFresh = Inr demoMerged
   \<and> split CHR ''.'' (version demoExisting) = [''1'', ''0'', ''0'']
   \<and> version demoMerged = ''1.1.0''
   \<and> version_less (version demoExisting) (version demoMerged)"
proof -
  have s: "split CHR ''.'' (version demoExisting) = ''1'' # ''0'' # [''0'']" by code_simp
  have a: "all_digits ''1''" "all_digits ''0''" by code_simp+
  have b: "digits_value 10 ''0'' < 2 ^ 53" by code_simp
  have v: "version demoMerged = ''1.1.0''" by code_simp
  from version_bump [OF demo_merge s a b] s v demo_merge show ?thesis by simp
qed

text \<open>
  The claim as stated fails beyond the integers that a double holds exactly:
  \<^verbatim>\<open>9007199254740992 + 1\<close> is \<^verbatim>\<open>9007199254740992\<close>, and the merged version is the existing
  one.
\<close>

theorem version_bump_counterexample:
  "split CHR ''.'' ''1.9007199254740992.0'' = [''1'', ''9007199254740992'', ''0'']
   \<and> all_digits ''1'' \<and> all_digits ''9007199254740992'' \<and> all_digits ''0''
   \<and> mergeKnowledge demoParser demoNow (mkKnowledge ''1.9007199254740992.0'' [] [])
        (mkKnowledge [] [] [])
      = Inr \<lparr> version = ''1.9007199254740992.0'', pages = [], forms = [], userFlows = [],
               updateHistory = Some [\<lparr> date = demoNow, previousVersion = ''1.9007199254740992.0'',
                                        newVersion = ''1.9007199254740992.0'',
                                        pagesAdded = 0, formsAdded = 0, flowsAdded = 0 \<rparr>],
               removedForms = Some [], others = () \<rparr>
   \<and> \<not> version_less ''1.9007199254740992.0'' ''1.9007199254740992.0''"
  by code_simp

text \<open>
  Claim C3, as amended. The limits of a run are the configured ones where these are set
  and not zero; an option that is missing, not a number or zero gives the default, 50
  pages and depth 3. In every state of every run: the visited set is no larger than the
  page limit (than zero, for a negative limit); every explored page was explored at a
  depth within the depth limit, and the explored pages are the visited ones; the loop
  goes on exactly while the queue is non-empty and the visited set is below the page
  limit, so that the state the loop returns is the one run state where the queue is
  empty or the limit is reached; the loop does return (\<open>crawl\<close> is total, whatever the
  link graph); and every visited URL is one the crawler can come to from the start URL
  by links it follows, so there are at most as many as such URLs.
  An entry deeper than the depth limit can be enqueued and dequeued: the loop drops it
  when it dequeues it.
\<close>

theorem crawl_bounds:
  assumes "newEngine P cfg = Some e" and "run_state P B (startState e) s"
  shows "maxPages e = (case cfg_maxPages cfg of None \<Rightarrow> 50 | Some n \<Rightarrow> if n = 0 then 50 else n)
       \<and> maxDepth e = (case cfg_maxDepth cfg of None \<Rightarrow> 3 | Some n \<Rightarrow> if n = 0 then 3 else n)
       \<and> set_size (visited s) \<le> max 0 (maxPages e)
       \<and> (\<forall>n. cfg_maxPages cfg = Some n \<and> 0 < n \<longrightarrow> set_size (visited s) \<le> n)
       \<and> list_all (\<lambda>(u, d). d \<le> maxDepth e) (exploreLog s)
       \<and> (\<forall>n. cfg_maxDepth cfg = Some n \<and> n \<noteq> 0 \<longrightarrow> list_all (\<lambda>(u, d). d \<le> n) (exploreLog s))
       \<and> map fst (exploreLog s) = visited s
       \<and> crawl_cond s = (toVisit s \<noteq> [] \<and> set_size (visited s) < maxPages e)
       \<and> (\<not> crawl_cond s) = (s = crawl P B (startState e))
       \<and> run_state P B (startState e) (crawl P B (startState e))
       \<and> set (visited s) \<subseteq> crawlable P B e
       \<and> crawlable P B e \<subseteq> reachable B (cfg_targetUrl cfg)
       \<and> (finite (crawlable P B e)
            \<longrightarrow> set_size (visited s) \<le> int (card (crawlable P B e)))
       \<and> (finite (reachable B (cfg_targetUrl cfg))
            \<longrightarrow> set_size (visited s) \<le> int (card (reachable B (cfg_targetUrl cfg))))"
proof -
  have eff: "maxPages e = (case cfg_maxPages cfg of None \<Rightarrow> 50 | Some n \<Rightarrow> if n = 0 then 50 else n)"
    "maxDepth e = (case cfg_maxDepth cfg of None \<Rightarrow> 3 | Some n \<Rightarrow> if n = 0 then 3 else n)"
    "targetUrl e = cfg_targetUrl cfg"
    using assms(1) by (auto simp: newEngine_def or_default_def split: option.splits)
  have cfg: "maxPages s = maxPages e" "maxDepth s = maxDepth e"
    using run_state_config [OF assms(2)] by (simp_all add: startState_def)
  have b: "bound_inv s" by (rule bound_inv_run [OF assms])
  have r: "set (visited s) \<subseteq> crawlable P B e"
    using crawl_inv_run [OF assms] by (simp add: crawl_inv_def)
  have rr: "crawlable P B e \<subseteq> reachable B (cfg_targetUrl cfg)"
    using crawlable_reachable [of P B e] by (simp add: eff(3))
  have c: "finite (crawlable P B e) \<longrightarrow> set_size (visited s) \<le> int (card (crawlable P B e))"
  proof
    assume fin: "finite (crawlable P B e)"
    from b have "length (visited s) = card (set (visited s))"
      by (simp add: bound_inv_def distinct_card)
    also have "\<dots> \<le> card (crawlable P B e)"
      by (rule card_mono [OF fin r])
    finally show "set_size (visited s) \<le> int (card (crawlable P B e))"
      by (simp add: set_size_def)
  qed
  have k: "crawl_cond s = (toVisit s \<noteq> [] \<and> set_size (visited s) < maxPages e)"
    by (simp add: crawl_cond_def cfg)
  have f: "(\<not> crawl_cond s) = (s = crawl P B (startState e))"
    by (rule run_state_final [OF assms(2)])
  have t: "run_state P B (startState e) (crawl P B (startState e))"
    by (rule crawl_run_state)
  from b cfg have v: "set_size (visited s) \<le> max 0 (maxPages e)"
    and d: "list_all (\<lambda>(u, d). d \<le> maxDepth e) (exploreLog s)"
    and l: "map fst (exploreLog s) = visited s"
    by (simp_all add: bound_inv_def)
  have vn: "\<forall>n. cfg_maxPages cfg = Some n \<and> 0 < n \<longrightarrow> set_size (visited s) \<le> n"
    using v by (auto simp: eff(1))
  have dn: "\<forall>n. cfg_maxDepth cfg = Some n \<and> n \<noteq> 0 \<longrightarrow> list_all (\<lambda>(u, d). d \<le> n) (exploreLog s)"
    using d by (auto simp: eff(2))
  have c': "finite (reachable B (cfg_targetUrl cfg))
            \<longrightarrow> set_size (visited s) \<le> int (card (reachable B (cfg_targetUrl cfg)))"
  proof
    assume fin: "finite (reachable B (cfg_targetUrl cfg))"
    from b have "length (visited s) = card (set (visited s))"
      by (simp add: bound_inv_def distinct_card)
    also have "\<dots> \<le> card (reachable B (cfg_targetUrl cfg))"
      using r rr by (intro card_mono [OF fin]) blast
    finally show "set_size (visited s) \<le> int (card (reachable B (cfg_targetUrl cfg)))"
      by (simp add: set_size_def)
  qed
  from eff(1,2) v vn d dn l k f t r rr c c' show ?thesis by blast
qed

theorem crawl_bounds_witness:
  "newEngine demoParser demoConfig = Some demoEngine
   \<and> cfg_maxDepth demoConfig = Some 1 \<and> cfg_maxPages demoConfig = None
   \<and> maxDepth demoEngine = 1 \<and> maxPages demoEngine = 50
   \<and> visited demoAfter2 = [''http://app.test/'', ''http://app.test/a'']
   \<and> exploreLog demoAfter2 = [(''http://app.test/'', 0), (''http://app.test/a'', 1)]
   \<and> set_size (visited demoAfter2) \<le> 50
   \<and> list_all (\<lambda>(u, d). d \<le> 1) (exploreLog demoAfter2)
   \<and> crawl_cond demoAfter2
   \<and> set (visited demoAfter2) \<subseteq> crawlable demoParser demoSite demoEngine
   \<and> newEngine demoParser (demoConfig\<lparr>cfg_maxPages := Some 1\<rparr>) = Some (demoEngine\<lparr>maxPages := 1\<rparr>)
   \<and> visited (crawl demoParser demoSite (startState (demoEngine\<lparr>maxPages := 1\<rparr>)))
       = [''http://app.test/'']
   \<and> set_size (visited (crawl demoParser demoSite (startState (demoEngine\<lparr>maxPages := 1\<rparr>)))) \<le> 1"
proof -
  have c: "cfg_maxDepth demoConfig = Some 1" "cfg_maxPages demoConfig = None" by code_simp+
  have v: "visited demoAfter2 = [''http://app.test/'', ''http://app.test/a'']"
    by code_simp
  have l: "exploreLog demoAfter2 = [(''http://app.test/'', 0), (''http://app.test/a'', 1)]"
    by code_simp
  have k: "crawl_cond demoAfter2" by code_simp
  note b = crawl_bounds [OF demo_newEngine demoAfter2_run]
  from b c have e: "maxDepth demoEngine = 1" "maxPages demoEngine = 50" by simp_all
  from b e have s: "set_size (visited demoAfter2) \<le> 50" by simp
  from b have "\<forall>n. cfg_maxDepth demoConfig = Some n \<and> n \<noteq> 0
                 \<longrightarrow> list_all (\<lambda>(u, d). d \<le> n) (exploreLog demoAfter2)"
    by blast
  from this [rule_format, of 1] c
  have d: "list_all (\<lambda>(u, d). d \<le> 1) (exploreLog demoAfter2)" by simp
  from b have r: "set (visited demoAfter2) \<subseteq> crawlable demoParser demoSite demoEngine" by blast
  have n1: "newEngine demoParser (demoConfig\<lparr>cfg_maxPages := Some 1\<rparr>)
              = Some (demoEngine\<lparr>maxPages := 1\<rparr>)"
    by code_simp
  have c1: "cfg_maxPages (demoConfig\<lparr>cfg_maxPages := Some 1\<rparr>) = Some 1" by simp
  have v1: "visited (crawl demoParser demoSite (startState (demoEngine\<lparr>maxPages := 1\<rparr>)))
       = [''http://app.test/'']"
    by code_simp
  from crawl_bounds [OF n1 crawl_run_state]
  have "\<forall>n. cfg_maxPages (demoConfig\<lparr>cfg_maxPages := Some 1\<rparr>) = Some n \<and> 0 < n
          \<longrightarrow> set_size (visited (crawl demoParser demoSite
                           (startState (demoEngine\<lparr>maxPages := 1\<rparr>)))) \<le> n"
    by blast
  from this [rule_format, of 1] c1
  have s1: "set_size (visited (crawl demoParser demoSite (startState (demoEngine\<lparr>maxPages := 1\<rparr>)))) \<le> 1"
    by simp
  from demo_newEngine c e v l s d k r n1 v1 s1 show ?thesis by blast
qed

text \<open>
  The claim as stated fails in four places. On the example site with depth limit 1, the
  third pass of the loop dequeues an entry of depth 2 (and drops it). With a page limit
  of \<open>-1\<close> the visited set, empty, is larger than the limit. With a configured depth limit
  of 0 the run explores pages at depths 1 and 2, and with a configured page limit of 0 it
  visits two pages: zero is replaced by the default.
\<close>

theorem crawl_bounds_counterexample:
  "run_state demoParser demoSite (startState demoEngine) demoAfter2
   \<and> crawl_cond demoAfter2
   \<and> toVisit demoAfter2 = [Entry ''http://app.test/b'' 2, Entry ''http://app.test/a#sec'' 2]
   \<and> maxDepth demoAfter2 = 1
   \<and> toVisit (crawl_step demoParser demoSite demoAfter2) = [Entry ''http://app.test/a#sec'' 2]
   \<and> newEngine demoParser (demoConfig\<lparr>cfg_maxPages := Some (- 1)\<rparr>)
         = Some (demoEngine\<lparr>maxPages := - 1\<rparr>)
   \<and> maxPages (demoEngine\<lparr>maxPages := - 1\<rparr>)
         < set_size (visited (crawl demoParser demoSite (startState (demoEngine\<lparr>maxPages := - 1\<rparr>))))
   \<and> newEngine demoParser (demoConfig\<lparr>cfg_maxDepth := Some 0\<rparr>)
         = Some (demoEngine\<lparr>maxDepth := 3\<rparr>)
   \<and> exploreLog (crawl demoParser demoSite (startState (demoEngine\<lparr>maxDepth := 3\<rparr>)))
         = [(''http://app.test/'', 0), (''http://app.test/a'', 1),
            (''http://app.test/b'', 2), (''http://app.test/a#sec'', 2)]
   \<and> newEngine demoParser (demoConfig\<lparr>cfg_maxPages := Some 0\<rparr>) = Some demoEngine
   \<and> visited (crawl demoParser demoSite (startState demoEngine))
         = [''http://app.test/'', ''http://app.test/a'']"
proof -
  have 1: "crawl_cond demoAfter2" by code_simp
  have 2: "toVisit demoAfter2 = [Entry ''http://app.test/b'' 2, Entry ''http://app.test/a#sec'' 2]"
    by code_simp
  have 3: "maxDepth demoAfter2 = 1" by code_simp
  have 4: "toVisit (crawl_step demoParser demoSite demoAfter2) = [Entry ''http://app.test/a#sec'' 2]"
    by code_simp
  have 5: "newEngine demoParser (demoConfig\<lparr>cfg_maxPages := Some (- 1)\<rparr>)
         = Some (demoEngine\<lparr>maxPages := - 1\<rparr>)"
    by code_simp
  have 6: "maxPages (demoEngine\<lparr>maxPages := - 1\<rparr>)
         < set_size (visited (crawl demoParser demoSite (startState (demoEngine\<lparr>maxPages := - 1\<rparr>))))"
    by code_simp
  have 7: "newEngine demoParser (demoConfig\<lparr>cfg_maxDepth := Some 0\<rparr>)
         = Some (demoEngine\<lparr>maxDepth := 3\<rparr>)"
    by code_simp
  have 8: "exploreLog (crawl demoParser demoSite (startState (demoEngine\<lparr>maxDepth := 3\<rparr>)))
         = [(''http://app.test/'', 0), (''http://app.test/a'', 1),
            (''http://app.test/b'', 2), (''http://app.test/a#sec'', 2)]"
    by code_simp
  have 9: "newEngine demoParser (demoConfig\<lparr>cfg_maxPages := Some 0\<rparr>) = Some demoEngine"
    by code_simp
  have 10: "visited (crawl demoParser demoSite (startState demoEngine))
         = [''http://app.test/'', ''http://app.test/a'']"
    by code_simp
  from demoAfter2_run 1 2 3 4 5 6 7 8 9 10 show ?thesis by blast
qed

text \<open>
  Claim C4, as amended. In every pass of the loop of every run, the entries added to the
  queue are for links that are not in the visited set (the page being explored included),
  that parse to the host of the start URL, and whose lowercased path does not end in one
  of the skipped extensions; each is added one level below the page it was found on,
  whatever the depth limit. Links to another host are never enqueued.
\<close>

theorem enqueue_rejections:
  assumes "newEngine P cfg = Some e" and "run_state P B (startState e) s" and "crawl_cond s"
  shows "\<exists>new. toVisit (crawl_step P B s) = tl (toVisit s) @ new
          \<and> (\<forall>ent \<in> set new.
                depth ent = depth (hd (toVisit s)) + 1
                \<and> entry_url ent \<notin> set (visited (crawl_step P B s))
                \<and> (\<exists>p b. P (entry_url ent) = Some p \<and> P (cfg_targetUrl cfg) = Some b
                      \<and> hostname p = hostname b
                      \<and> \<not> list_ex (\<lambda>ext. endsWith (toLowerCase (pathname p)) ext) skipExtensions))"
  using assms(3)
proof (cases rule: crawl_step_cases [where P = P and B = B])
  case (skip current rest)
  then show ?thesis by (intro exI [of _ "[]"]) simp
next
  case (visit current rest)
  let ?u = "entry_url current"
  let ?s1 = "s\<lparr>toVisit := rest, visited := set_add ?u (visited s)\<rparr>"
  let ?links = "filter (\<lambda>l. shouldFollowLink P ?s1 l \<and> l \<notin> set (set_add ?u (visited s)))
                  (pageLinks P B ?u)"
  let ?new = "map (\<lambda>link. Entry link (depth current + 1)) ?links"
  obtain b where b: "P (cfg_targetUrl cfg) = Some b" and dom: "baseDomain s = hostname b"
    using run_state_config [OF assms(2)] assms(1)
    by (auto simp: startState_def newEngine_def split: option.splits)
  have tv: "toVisit (crawl_step P B s) = tl (toVisit s) @ ?new"
    by (simp add: visit(1) visit(4) explorePage_enqueues)
  have vis: "visited (crawl_step P B s) = set_add ?u (visited s)"
    by (simp add: visit(4) explorePage_visited)
  have "\<forall>ent \<in> set ?new.
                depth ent = depth (hd (toVisit s)) + 1
                \<and> entry_url ent \<notin> set (visited (crawl_step P B s))
                \<and> (\<exists>p b. P (entry_url ent) = Some p \<and> P (cfg_targetUrl cfg) = Some b
                      \<and> hostname p = hostname b
                      \<and> \<not> list_ex (\<lambda>ext. endsWith (toLowerCase (pathname p)) ext) skipExtensions)"
  proof
    fix ent assume "ent \<in> set ?new"
    then obtain l where ent: "ent = Entry l (depth current + 1)"
      and f: "shouldFollowLink P ?s1 l" and nv: "l \<notin> set (set_add ?u (visited s))"
      by auto
    from shouldFollowLink_accepts [OF f] obtain p where "P l = Some p"
      and "hostname p = hostname b"
      and "\<not> list_ex (\<lambda>ext. endsWith (toLowerCase (pathname p)) ext) skipExtensions"
      using dom by auto
    with ent nv b vis visit(1)
    show "depth ent = depth (hd (toVisit s)) + 1
                \<and> entry_url ent \<notin> set (visited (crawl_step P B s))
                \<and> (\<exists>p b. P (entry_url ent) = Some p \<and> P (cfg_targetUrl cfg) = Some b
                      \<and> hostname p = hostname b
                      \<and> \<not> list_ex (\<lambda>ext. endsWith (toLowerCase (pathname p)) ext) skipExtensions)"
      by simp
  qed
  with tv show ?thesis by blast
qed

theorem enqueue_rejections_witness:
  "crawl_cond (startState demoEngine)
   \<and> pageLinks demoParser demoSite ''http://app.test/''
        = [''http://app.test/a'', ''http://other.test/x'', ''http://app.test/report.pdf'']
   \<and> toVisit (crawl_step demoParser demoSite (startState demoEngine)) = [Entry ''http://app.test/a'' 1]
   \<and> (\<exists>p b. demoParser ''http://app.test/a'' = Some p
             \<and> demoParser (cfg_targetUrl demoConfig) = Some b
             \<and> hostname p = hostname b
             \<and> \<not> list_ex (\<lambda>ext. endsWith (toLowerCase (pathname p)) ext) skipExtensions)"
proof -
  have 1: "pageLinks demoParser demoSite ''http://app.test/''
        = [''http://app.test/a'', ''http://other.test/x'', ''http://app.test/report.pdf'']"
    by code_simp
  have 2: "toVisit (crawl_step demoParser demoSite (startState demoEngine)) = [Entry ''http://app.test/a'' 1]"
    by code_simp
  have 3: "tl (toVisit (startState demoEngine)) = []" by code_simp
  from enqueue_rejections [OF demo_newEngine run_state.start demo_cond0, of demoSite]
  have "\<exists>p b. demoParser ''http://app.test/a'' = Some p
             \<and> demoParser (cfg_targetUrl demoConfig) = Some b
             \<and> hostname p = hostname b
             \<and> \<not> list_ex (\<lambda>ext. endsWith (toLowerCase (pathname p)) ext) skipExtensions"
    unfolding 2 3 by auto
  with demo_cond0 1 2 show ?thesis by blast
qed

text \<open>
  The claim as stated fails: with depth limit 1, exploring \<^verbatim>\<open>/a\<close> at depth 1 enqueues its
  links at depth 2, among them the anchor \<^verbatim>\<open>/a#sec\<close> of that same page.
\<close>

theorem enqueue_rejections_counterexample:
  "run_state demoParser demoSite (startState demoEngine) demoAfter2
   \<and> maxDepth demoAfter2 = 1
   \<and> toVisit demoAfter2 = [Entry ''http://app.test/b'' 2, Entry ''http://app.test/a#sec'' 2]
   \<and> visited demoAfter2 = [''http://app.test/'', ''http://app.test/a'']"
proof -
  have 1: "maxDepth demoAfter2 = 1" by code_simp
  have 2: "toVisit demoAfter2 = [Entry ''http://app.test/b'' 2, Entry ''http://app.test/a#sec'' 2]"
    by code_simp
  have 3: "visited demoAfter2 = [''http://app.test/'', ''http://app.test/a'']" by code_simp
  from demoAfter2_run 1 2 3 show ?thesis by blast
qed

text \<open>
  Claim C5, as amended. \<^verbatim>\<open>classifyPage\<close> is the first match in the ordered rules
  \<open>pageRules\<close>: the keywords of login, signup, dashboard, profile, contact and about in the
  lowercased title, heading and path; then the root path; then a path that ends in a
  digit or contains \<^verbatim>\<open>detail\<close>; then a path that contains \<^verbatim>\<open>list\<close> or a body text that
  contains \<^verbatim>\<open>showing\<close> or \<^verbatim>\<open>results\<close>, these three looked for in the path and the body text as
  they are, not lowercased; otherwise \<^verbatim>\<open>page\<close>. The page type of a record is a function of
  the record's own fields: classifying the record again gives the type it carries.
\<close>

theorem classifyPage_first_match:
  "classifyPage d p = firstMatch pageRules ''page'' d p
   \<and> (\<forall>P pg u r. extractPageData P pg u = Returns r
         \<longrightarrow> pageType r = classifyPage (signalsOf r) (path r))"
proof -
  have a: "classifyPage d p = firstMatch pageRules ''page'' d p"
    by (simp add: classifyPage_def pageRules_def keyword_def lowerTitle_def ends_in_digits_def Let_def)
  have b: "\<forall>P pg u r. extractPageData P pg u = Returns r
         \<longrightarrow> pageType r = classifyPage (signalsOf r) (path r)"
    by (auto simp: extractPageData_def signalsOf_def Let_def split: outcome.splits option.splits
         intro!: arg_cong2 [where f = classifyPage])
  from a b show ?thesis by blast
qed

theorem classifyPage_first_match_witness:
  "classifyPage \<lparr> title = ''Login to Dashboard'', heading = [], description = [], bodyText = [] \<rparr>
       ''/dashboard'' = ''login''
   \<and> extractPageData demoParser (demoSite ''http://app.test/a'') ''http://app.test/a''
       = Returns \<lparr> title = ''A'', heading = [], description = [], url = ''http://app.test/a'',
                   path = ''/a'', pageName = ''A'', pageType = ''page'', preview = [] \<rparr>
   \<and> classifyPage (signalsOf \<lparr> title = ''A'', heading = [], description = [],
                       url = ''http://app.test/a'', path = ''/a'', pageName = ''A'',
                       pageType = ''page'', preview = [] \<rparr>) ''/a'' = ''page''"
proof -
  let ?d = "\<lparr> title = ''Login to Dashboard'', heading = [], description = [], bodyText = [] \<rparr>"
  let ?r = "\<lparr> title = ''A'', heading = [], description = [], url = ''http://app.test/a'',
                   path = ''/a'', pageName = ''A'', pageType = ''page'', preview = [] \<rparr>"
  have 1: "firstMatch pageRules ''page'' ?d ''/dashboard'' = ''login''" by code_simp
  have 2: "extractPageData demoParser (demoSite ''http://app.test/a'') ''http://app.test/a''
       = Returns ?r" by code_simp
  from classifyPage_first_match [of ?d "''/dashboard''"] 1 2 show ?thesis by fastforce
qed

text \<open>
  The claim as stated fails: a page titled \<^verbatim>\<open>Order Details\<close> at \<^verbatim>\<open>/orders/view\<close> has the
  keyword in its title, and is classified \<^verbatim>\<open>page\<close>.
\<close>

theorem classifyPage_first_match_counterexample:
  "classifyPage \<lparr> title = ''Order Details'', heading = [], description = [], bodyText = [] \<rparr>
       ''/orders/view'' = ''page''
   \<and> firstMatch claimedRules ''page''
       \<lparr> title = ''Order Details'', heading = [], description = [], bodyText = [] \<rparr>
       ''/orders/view'' = ''detail''"
proof -
  have 1: "classifyPage \<lparr> title = ''Order Details'', heading = [], description = [], bodyText = [] \<rparr>
       ''/orders/view'' = ''page''" by code_simp
  have 2: "firstMatch claimedRules ''page''
       \<lparr> title = ''Order Details'', heading = [], description = [], bodyText = [] \<rparr>
       ''/orders/view'' = ''detail''" by code_simp
  from 1 2 show ?thesis by blast
qed




text \<open>
  Claim C7. In every state of every run the explored pages are the visited ones, in the
  order of their exploration, and their depths never decrease: of two explored pages, the
  one at the smaller depth was dequeued first. The queue is first in, first out: the
  waiting entries are in order of depth too, none shallower than an explored page.
\<close>

theorem breadth_first_order:
  assumes "newEngine P cfg = Some e" and "run_state P B (startState e) s"
  shows "map fst (exploreLog s) = visited s
       \<and> sorted (map snd (exploreLog s))
       \<and> (\<forall>i j. i < length (exploreLog s) \<and> j < length (exploreLog s)
                  \<and> snd (exploreLog s ! i) < snd (exploreLog s ! j) \<longrightarrow> i < j)
       \<and> sorted (map depth (toVisit s))
       \<and> (\<forall>d \<in> set (map snd (exploreLog s)). \<forall>q \<in> set (toVisit s). d \<le> depth q)"
proof -
  from bfs_inv_run [OF assms] have srt: "sorted (map snd (exploreLog s) @ map depth (toVisit s))"
    by (simp add: bfs_inv_def)
  then have s1: "sorted (map snd (exploreLog s))" and s2: "sorted (map depth (toVisit s))"
    and s3: "\<forall>d \<in> set (map snd (exploreLog s)). \<forall>q \<in> set (toVisit s). d \<le> depth q"
    by (auto simp: sorted_append)
  have ord: "\<forall>i j. i < length (exploreLog s) \<and> j < length (exploreLog s)
                  \<and> snd (exploreLog s ! i) < snd (exploreLog s ! j) \<longrightarrow> i < j"
  proof (intro allI impI, elim conjE)
    fix i j
    assume i: "i < length (exploreLog s)" and j: "j < length (exploreLog s)"
      and lt: "snd (exploreLog s ! i) < snd (exploreLog s ! j)"
    show "i < j"
    proof (rule ccontr)
      assume "\<not> i < j"
      then have "j \<le> i" by simp
      with s1 i have "map snd (exploreLog s) ! j \<le> map snd (exploreLog s) ! i"
        by (auto simp: sorted_iff_nth_mono)
      with i j lt show False by simp
    qed
  qed
  from bound_inv_run [OF assms] have "map fst (exploreLog s) = visited s"
    by (simp add: bound_inv_def)
  with s1 s2 s3 ord show ?thesis by blast
qed

theorem breadth_first_order_witness:
  "exploreLog demoFinal = [(''http://app.test/'', 0), (''http://app.test/a'', 1)]
   \<and> visited demoFinal = [''http://app.test/'', ''http://app.test/a'']
   \<and> snd (exploreLog demoFinal ! 0) < snd (exploreLog demoFinal ! 1)
   \<and> (0::nat) < 1
   \<and> sorted (map snd (exploreLog demoFinal))"
proof -
  have r: "run_state demoParser demoSite (startState demoEngine) demoFinal"
    unfolding demoFinal_def by (rule crawl_run_state)
  have l: "exploreLog demoFinal = [(''http://app.test/'', 0), (''http://app.test/a'', 1)]"
    by code_simp
  from breadth_first_order [OF demo_newEngine r] l show ?thesis by simp
qed

text \<open>
  Claim C8, as amended. A merge that returns sets the history to the history of the
  existing knowledge followed by one new entry. The entry holds the time, the existing
  version, the merged version, the number of pages of the new analysis whose path the
  existing knowledge does not have, and, for the forms and for the flows, the number in
  the new analysis less the number in the existing knowledge. With one page at a new
  path, every other page at a known path and as many forms as before, the entry reports
  one page added and no form.
\<close>

theorem history_append:
  assumes "mergeKnowledge P now existing newAnalysis = Inr merged"
  shows "\<exists>entry. updateHistory merged = Some (history existing @ [entry])
      \<and> date entry = now
      \<and> previousVersion entry = version existing
      \<and> newVersion entry = version merged
      \<and> pagesAdded entry
          = length (filter (\<lambda>p. path p \<notin> path ` set (allPages (pages existing)))
                           (allPages (pages newAnalysis)))
      \<and> formsAdded entry = int (length (forms newAnalysis)) - int (length (forms existing))
      \<and> flowsAdded entry = int (length (userFlows newAnalysis)) - int (length (userFlows existing))
      \<and> (\<forall>before added after.
            allPages (pages newAnalysis) = before @ added # after
            \<and> path added \<notin> path ` set (allPages (pages existing))
            \<and> (\<forall>p \<in> set (before @ after). path p \<in> path ` set (allPages (pages existing)))
            \<and> length (forms newAnalysis) = length (forms existing)
            \<longrightarrow> pagesAdded entry = 1 \<and> formsAdded entry = 0)"
proof -
  note f = mergeKnowledge_fields [OF assms]
  let ?old = "path ` set (allPages (pages existing))"
  let ?entry = "\<lparr> date = now, previousVersion = version existing,
                 newVersion = bumpVersion (version existing),
                 pagesAdded = countNewPages (pages existing) (pages merged),
                 formsAdded = int (length (forms merged)) - int (length (forms existing)),
                 flowsAdded = int (length (userFlows merged)) - int (length (userFlows existing)) \<rparr>"
  have cnt: "countNewPages (pages existing) (pages merged)
          = length (filter (\<lambda>p. path p \<notin> ?old) (allPages (pages newAnalysis)))"
  proof -
    have "length (filter (\<lambda>p. path p \<notin> ?old) (allPages (pages merged)))
            = length (filter (\<lambda>k. k \<notin> ?old) (map path (allPages (pages merged))))"
      by (simp add: filter_map comp_def)
    also have "\<dots> = length (filter (\<lambda>k. k \<notin> ?old) (map path (allPages (pages newAnalysis))))"
      by (simp only: f(1) mergePages_paths)
    also have "\<dots> = length (filter (\<lambda>p. path p \<notin> ?old) (allPages (pages newAnalysis)))"
      by (simp add: filter_map comp_def)
    finally show ?thesis by (simp add: countNewPages_def)
  qed
  have one: "\<forall>before added after.
            allPages (pages newAnalysis) = before @ added # after
            \<and> path added \<notin> ?old
            \<and> (\<forall>p \<in> set (before @ after). path p \<in> ?old)
            \<and> length (forms newAnalysis) = length (forms existing)
            \<longrightarrow> pagesAdded ?entry = 1 \<and> formsAdded ?entry = 0"
  proof (intro allI impI, elim conjE)
    fix before added after
    assume split: "allPages (pages newAnalysis) = before @ added # after"
      and new: "path added \<notin> ?old" and rest: "\<forall>p \<in> set (before @ after). path p \<in> ?old"
      and same: "length (forms newAnalysis) = length (forms existing)"
    from rest have "filter (\<lambda>p. path p \<notin> ?old) before = []" "filter (\<lambda>p. path p \<notin> ?old) after = []"
      by (auto simp: filter_empty_conv)
    with new have "length (filter (\<lambda>p. path p \<notin> ?old) (allPages (pages newAnalysis))) = 1"
      by (simp add: split)
    with same show "pagesAdded ?entry = 1 \<and> formsAdded ?entry = 0"
      by (simp add: cnt f(2))
  qed
  have "updateHistory merged = Some (history existing @ [?entry])" by (rule f(5))
  moreover have "newVersion ?entry = version merged"
    by (simp add: mergeKnowledge_version [OF assms])
  moreover have "pagesAdded ?entry
          = length (filter (\<lambda>p. path p \<notin> ?old) (allPages (pages newAnalysis)))"
    by (simp add: cnt)
  moreover have "formsAdded ?entry = int (length (forms newAnalysis)) - int (length (forms existing))"
    "flowsAdded ?entry = int (length (userFlows newAnalysis)) - int (length (userFlows existing))"
    by (simp_all add: f(2,3))
  ultimately show ?thesis using one
    by (intro exI [of _ ?entry]) simp
qed

theorem history_append_witness:
  "mergeKnowledge demoParser demoNow demoExisting demoFresh = Inr demoMerged
   \<and> history demoExisting = []
   \<and> updateHistory demoMerged
       = Some [\<lparr> date = demoNow, previousVersion = ''1.0.0'', newVersion = ''1.1.0'',
                  pagesAdded = 1, formsAdded = 0, flowsAdded = 0 \<rparr>]
   \<and> allPages (pages demoFresh)
       = [mkPage ''/login'' None, mkPage ''/'' None, mkPage ''/dashboard'' None]
         @ mkPage ''/calendar'' None # []
   \<and> (\<exists>entry. updateHistory demoMerged = Some (history demoExisting @ [entry])
         \<and> pagesAdded entry = 1 \<and> formsAdded entry = 0)"
proof -
  have h: "history demoExisting = []" by code_simp
  have u: "updateHistory demoMerged
       = Some [\<lparr> date = demoNow, previousVersion = ''1.0.0'', newVersion = ''1.1.0'',
                  pagesAdded = 1, formsAdded = 0, flowsAdded = 0 \<rparr>]" by code_simp
  have a: "allPages (pages demoFresh)
       = [mkPage ''/login'' None, mkPage ''/'' None, mkPage ''/dashboard'' None]
         @ mkPage ''/calendar'' None # []" by code_simp
  have n: "path (mkPage ''/calendar'' None) \<notin> path ` set (allPages (pages demoExisting))"
    by code_simp
  have o: "\<forall>p \<in> set ([mkPage ''/login'' None, mkPage ''/'' None, mkPage ''/dashboard'' None] @ []).
             path p \<in> path ` set (allPages (pages demoExisting))"
    by code_simp
  have l: "length (forms demoFresh) = length (forms demoExisting)" by code_simp
  from history_append [OF demo_merge] obtain entry where
    e: "updateHistory demoMerged = Some (history demoExisting @ [entry])"
    and sc: "\<forall>before added after.
            allPages (pages demoFresh) = before @ added # after
            \<and> path added \<notin> path ` set (allPages (pages demoExisting))
            \<and> (\<forall>p \<in> set (before @ after). path p \<in> path ` set (allPages (pages demoExisting)))
            \<and> length (forms demoFresh) = length (forms demoExisting)
            \<longrightarrow> pagesAdded entry = 1 \<and> formsAdded entry = 0"
    by blast
  from sc a n o l have "pagesAdded entry = 1 \<and> formsAdded entry = 0" by blast
  with e h u a demo_merge show ?thesis by blast
qed

text \<open>
  The claim as stated fails for the forms: \<^verbatim>\<open>formsAdded\<close> is a difference of two lengths,
  not a count of added forms. Where two forms are gone and one form with a new action
  path has come, the entry reports \<open>-1\<close>.
\<close>

theorem history_append_counterexample:
  "mergeKnowledge demoParser demoNow
      (mkKnowledge ''1.0.0'' []
         [mkForm ''http://app.test/login'' None, mkForm ''http://app.test/search'' None])
      (mkKnowledge [] [] [mkForm ''http://app.test/contact'' None])
    = Inr \<lparr> version = ''1.1.0'', pages = [],
             forms = [mkForm ''http://app.test/contact'' None], userFlows = [],
             updateHistory = Some [\<lparr> date = demoNow, previousVersion = ''1.0.0'',
                                      newVersion = ''1.1.0'',
                                      pagesAdded = 0, formsAdded = - 1, flowsAdded = 0 \<rparr>],
             removedForms = Some [''/login'', ''/search''], others = () \<rparr>
   \<and> formPath demoParser (mkForm ''http://app.test/contact'' None)
       \<notin> formPath demoParser
             ` set [mkForm ''http://app.test/login'' None, mkForm ''http://app.test/search'' None]"
  by code_simp

text \<open>
  Claim C9, as amended. The clock being in ISO format, date and time separated by
  \<^verbatim>\<open>T\<close>: the generator runs, if at all, on the file system that \<^verbatim>\<open>backupExistingSkill\<close> has
  returned without an error. There, each of \<^verbatim>\<open>SKILL.md\<close>, \<^verbatim>\<open>app-knowledge.json\<close>,
  \<^verbatim>\<open>test-patterns.js\<close> and \<^verbatim>\<open>README.md\<close> that was a file before the update has a copy with
  its text under \<^verbatim>\<open>.backups/backup-<date>\<close>, a directory named by the date alone, and the
  four files themselves are as they were. When the generator writes nothing under
  \<^verbatim>\<open>.backups\<close>, the copies are there after the update, whether the generator has failed
  or not. When \<^verbatim>\<open>updateSkill\<close> fails before the generator runs, the four files are as
  they were.
\<close>

theorem backup_before_overwrite:
  assumes "updateSkill env fs = (r, fs')"
    and "backupClock env = day @ CHR ''T'' # time"
    and "CHR ''T'' \<notin> set day" and "CHR '':'' \<notin> set day" and "CHR ''.'' \<notin> set day"
  shows "(\<exists>merged backedUp.
             backupExistingSkill (skillPath env) (backupClock env) fs = (Inr (), backedUp)
           \<and> (\<forall>file \<in> set [''SKILL.md'', ''app-knowledge.json'', ''test-patterns.js'', ''README.md'']. \<forall>c.
                 fs (skillPath env @ [file]) = Some (File c)
                 \<longrightarrow> backedUp (skillPath env @ [''.backups'', ''backup-'' @ day, file])
                       = Some (File c))
           \<and> (\<forall>file \<in> set [''SKILL.md'', ''app-knowledge.json'', ''test-patterns.js'', ''README.md''].
                 backedUp (skillPath env @ [file]) = fs (skillPath env @ [file]))
           \<and> fs' = snd (generate env merged backedUp)
           \<and> isl r = isl (fst (generate env merged backedUp))
           \<and> ((\<forall>q. prefix (skillPath env @ [''.backups'']) q
                     \<longrightarrow> snd (generate env merged backedUp) q = backedUp q)
                \<longrightarrow> (\<forall>file \<in> set [''SKILL.md'', ''app-knowledge.json'', ''test-patterns.js'', ''README.md'']. \<forall>c.
                       fs (skillPath env @ [file]) = Some (File c)
                       \<longrightarrow> fs' (skillPath env @ [''.backups'', ''backup-'' @ day, file])
                             = Some (File c))))
       \<or> (isl r
           \<and> (\<forall>file \<in> set [''SKILL.md'', ''app-knowledge.json'', ''test-patterns.js'', ''README.md''].
                 fs' (skillPath env @ [file]) = fs (skillPath env @ [file])))"
proof -
  let ?sp = "skillPath env"
  have four: "[''SKILL.md'', ''app-knowledge.json'', ''test-patterns.js'', ''README.md''] = filesToBackup"
    by (simp add: filesToBackup_def)
  have bp: "backupPathOf ?sp (backupClock env) = ?sp @ [''.backups'', ''backup-'' @ day]"
    by (simp add: backupPathOf_def assms(2) backupTimestamp_day [OF assms(3,4,5)])
  have refl: "artifactsSame ?sp fs fs" by (simp add: artifactsSame_def)
  show ?thesis
  proof (cases "\<exists>content existing newAnalysis merged.
      existsSync fs ?sp \<and> existsSync fs (?sp @ [''app-knowledge.json''])
      \<and> fs (?sp @ [''app-knowledge.json'']) = Some (File content)
      \<and> parseKnowledge env content = Some existing
      \<and> reexplore env existing = Some newAnalysis
      \<and> mergeKnowledge (urlOf env) (mergeClock env) existing newAnalysis = Inr merged")
    case False
    then have "isl r \<and> fs' = fs"
      using assms(1)
      by (auto simp: updateSkill_def split: option.splits node.splits sum.splits if_splits)
    then show ?thesis by simp
  next
    case True
    then obtain content existing newAnalysis merged where
      pre: "existsSync fs ?sp" "existsSync fs (?sp @ [''app-knowledge.json''])"
        "fs (?sp @ [''app-knowledge.json'']) = Some (File content)"
        "parseKnowledge env content = Some existing"
        "reexplore env existing = Some newAnalysis"
        "mergeKnowledge (urlOf env) (mergeClock env) existing newAnalysis = Inr merged"
      by blast
    obtain rb fsb where b: "backupExistingSkill ?sp (backupClock env) fs = (rb, fsb)"
      by (cases "backupExistingSkill ?sp (backupClock env) fs")
    note br = backupExistingSkill_result [OF b]
    from br have same: "\<forall>file \<in> set [''SKILL.md'', ''app-knowledge.json'', ''test-patterns.js'', ''README.md'']. fsb (?sp @ [file]) = fs (?sp @ [file])"
      unfolding four by (simp add: artifactsSame_def)
    show ?thesis
    proof (cases rb)
      case (Inl e)
      with assms(1) pre b have "isl r" "fs' = fsb" by (auto simp: updateSkill_def)
      with same show ?thesis by simp
    next
      case (Inr u)
      obtain rg fsg where gen: "generate env merged fsb = (rg, fsg)"
        by (cases "generate env merged fsb")
      from assms(1) pre b Inr gen have fin: "fs' = fsg" "isl r = isl rg"
        by (auto simp: updateSkill_def split: sum.splits)
      from b Inr have ok: "backupExistingSkill ?sp (backupClock env) fs = (Inr (), fsb)"
        by simp
      from br Inr have "backedUpIn ?sp (?sp @ [''.backups'', ''backup-'' @ day]) fs fsb"
        by (simp add: bp)
      then have copies: "\<forall>file \<in> set [''SKILL.md'', ''app-knowledge.json'', ''test-patterns.js'', ''README.md'']. \<forall>c.
                 fs (?sp @ [file]) = Some (File c)
                 \<longrightarrow> fsb (?sp @ [''.backups'', ''backup-'' @ day, file]) = Some (File c)"
        unfolding four by (simp add: backedUpIn_def)
      have after: "(\<forall>q. prefix (?sp @ [''.backups'']) q \<longrightarrow> snd (generate env merged fsb) q = fsb q)
                \<longrightarrow> (\<forall>file \<in> set [''SKILL.md'', ''app-knowledge.json'', ''test-patterns.js'', ''README.md'']. \<forall>c.
                       fs (?sp @ [file]) = Some (File c)
                       \<longrightarrow> fs' (?sp @ [''.backups'', ''backup-'' @ day, file]) = Some (File c))"
      proof (intro impI ballI allI)
        fix g c
        assume frame: "\<forall>q. prefix (?sp @ [''.backups'']) q \<longrightarrow> snd (generate env merged fsb) q = fsb q"
          and mem: "g \<in> set [''SKILL.md'', ''app-knowledge.json'', ''test-patterns.js'', ''README.md'']" and c: "fs (?sp @ [g]) = Some (File c)"
        have "prefix (?sp @ [''.backups'']) (?sp @ [''.backups'', ''backup-'' @ day, g])"
          by (simp add: prefix_def)
        with frame have "fs' (?sp @ [''.backups'', ''backup-'' @ day, g])
                           = fsb (?sp @ [''.backups'', ''backup-'' @ day, g])"
          using fin(1) gen by simp
        moreover from copies mem c
        have "fsb (?sp @ [''.backups'', ''backup-'' @ day, g]) = Some (File c)" by blast
        ultimately show "fs' (?sp @ [''.backups'', ''backup-'' @ day, g]) = Some (File c)"
          by (simp only:)
      qed
      have run: "fs' = snd (generate env merged fsb)" "isl r = isl (fst (generate env merged fsb))"
        using fin gen by simp_all
      from ok copies same run after show ?thesis
        by (intro disjI1 exI [of _ merged] exI [of _ fsb] conjI)
    qed
  qed
qed

theorem backup_before_overwrite_witness:
  "fst (updateSkill demoEnv demoFiles) = Inr (demoSkillPath, ''1 new pages discovered'')
   \<and> backupClock demoEnv = ''2025-10-24'' @ CHR ''T'' # ''09:00:01.250Z''
   \<and> demoFiles (demoSkillPath @ [''SKILL.md'']) = Some (File ''skill v1'')
   \<and> snd (updateSkill demoEnv demoFiles) (demoSkillPath @ [''SKILL.md''])
        = Some (File ''skill v1.1.0'')
   \<and> snd (updateSkill demoEnv demoFiles)
        (demoSkillPath @ [''.backups'', ''backup-2025-10-24'', ''SKILL.md''])
        = Some (File ''skill v1'')
   \<and> (\<exists>merged backedUp.
          backupExistingSkill demoSkillPath (backupClock demoEnv) demoFiles = (Inr (), backedUp)
          \<and> backedUp (demoSkillPath @ [''.backups'', ''backup-2025-10-24'', ''SKILL.md''])
              = Some (File ''skill v1'')
          \<and> backedUp (demoSkillPath @ [''SKILL.md'']) = Some (File ''skill v1'')
          \<and> snd (updateSkill demoEnv demoFiles) = snd (demoGenerate merged backedUp))"
proof -
  have 1: "fst (updateSkill demoEnv demoFiles) = Inr (demoSkillPath, ''1 new pages discovered'')"
    by code_simp
  have 2: "backupClock demoEnv = ''2025-10-24'' @ CHR ''T'' # ''09:00:01.250Z''"
    by code_simp
  have d: "CHR ''T'' \<notin> set ''2025-10-24''" "CHR '':'' \<notin> set ''2025-10-24''"
    "CHR ''.'' \<notin> set ''2025-10-24''"
    by simp_all
  have 3: "demoFiles (demoSkillPath @ [''SKILL.md'']) = Some (File ''skill v1'')"
    by code_simp
  have 4: "snd (updateSkill demoEnv demoFiles) (demoSkillPath @ [''SKILL.md''])
        = Some (File ''skill v1.1.0'')"
    by code_simp
  have e: "skillPath demoEnv = demoSkillPath" "generate demoEnv = demoGenerate"
    by (simp_all add: demoEnv_def)
  have frame: "\<And>merged backedUp. \<forall>q. prefix (demoSkillPath @ [''.backups'']) q
                  \<longrightarrow> snd (demoGenerate merged backedUp) q = backedUp q"
    by (auto simp: demoGenerate_def demoSkillPath_def prefix_def)
  have m: "''SKILL.md'' \<in> set [''SKILL.md'', ''app-knowledge.json'', ''test-patterns.js'', ''README.md'']"
    by simp
  have "updateSkill demoEnv demoFiles
          = (fst (updateSkill demoEnv demoFiles), snd (updateSkill demoEnv demoFiles))"
    by simp
  from backup_before_overwrite [OF this 2 d] 1
  obtain merged backedUp where
    b: "backupExistingSkill demoSkillPath (backupClock demoEnv) demoFiles = (Inr (), backedUp)"
    and copies: "\<forall>file \<in> set [''SKILL.md'', ''app-knowledge.json'', ''test-patterns.js'', ''README.md'']. \<forall>c.
                 demoFiles (demoSkillPath @ [file]) = Some (File c)
                 \<longrightarrow> backedUp (demoSkillPath @ [''.backups'', ''backup-'' @ ''2025-10-24'', file])
                       = Some (File c)"
    and same: "\<forall>file \<in> set [''SKILL.md'', ''app-knowledge.json'', ''test-patterns.js'', ''README.md''].
                 backedUp (demoSkillPath @ [file]) = demoFiles (demoSkillPath @ [file])"
    and fin: "snd (updateSkill demoEnv demoFiles) = snd (demoGenerate merged backedUp)"
    and after: "(\<forall>q. prefix (demoSkillPath @ [''.backups'']) q
                     \<longrightarrow> snd (demoGenerate merged backedUp) q = backedUp q)
                \<longrightarrow> (\<forall>file \<in> set [''SKILL.md'', ''app-knowledge.json'', ''test-patterns.js'', ''README.md'']. \<forall>c.
                       demoFiles (demoSkillPath @ [file]) = Some (File c)
                       \<longrightarrow> snd (updateSkill demoEnv demoFiles)
                             (demoSkillPath @ [''.backups'', ''backup-'' @ ''2025-10-24'', file])
                             = Some (File c))"
    unfolding e by auto
  from copies m 3
  have c1: "backedUp (demoSkillPath @ [''.backups'', ''backup-2025-10-24'', ''SKILL.md''])
              = Some (File ''skill v1'')"
    by fastforce
  from same m 3 have c2: "backedUp (demoSkillPath @ [''SKILL.md'']) = Some (File ''skill v1'')"
    by fastforce
  from after frame m 3
  have c3: "snd (updateSkill demoEnv demoFiles)
              (demoSkillPath @ [''.backups'', ''backup-2025-10-24'', ''SKILL.md''])
              = Some (File ''skill v1'')"
    by fastforce
  from 1 2 3 4 b c1 c2 c3 fin show ?thesis by blast
qed

text \<open>
  The claim as stated fails where it promises that a merge can always be recovered from
  the backup: the backup directory is named by the day, not by the time. A second update
  at 17:30 of the day of the first writes its copies over those of 09:00, and the files
  that the first update replaced are no longer in the backup.
\<close>

theorem backup_before_overwrite_counterexample:
  "demoFiles (demoSkillPath @ [''SKILL.md'']) = Some (File ''skill v1'')
   \<and> backupClock demoEnv = ''2025-10-24T09:00:01.250Z''
   \<and> fst (updateSkill demoEnv demoFiles) = Inr (demoSkillPath, ''1 new pages discovered'')
   \<and> snd (updateSkill demoEnv demoFiles)
        (demoSkillPath @ [''.backups'', ''backup-2025-10-24'', ''SKILL.md''])
        = Some (File ''skill v1'')
   \<and> backupClock demoEnvLater = ''2025-10-24T17:30:00.000Z''
   \<and> fst (updateSkill demoEnvLater (snd (updateSkill demoEnv demoFiles)))
        = Inr (demoSkillPath, ''No significant changes detected'')
   \<and> snd (updateSkill demoEnvLater (snd (updateSkill demoEnv demoFiles)))
        (demoSkillPath @ [''SKILL.md''])
        = Some (File ''skill v1.2.0'')
   \<and> snd (updateSkill demoEnvLater (snd (updateSkill demoEnv demoFiles)))
        (demoSkillPath @ [''.backups'', ''backup-2025-10-24'', ''SKILL.md''])
        = Some (File ''skill v1.1.0'')"
proof -
  have 1: "demoFiles (demoSkillPath @ [''SKILL.md'']) = Some (File ''skill v1'')" by code_simp
  have 2: "backupClock demoEnv = ''2025-10-24T09:00:01.250Z''" by code_simp
  have 3: "fst (updateSkill demoEnv demoFiles) = Inr (demoSkillPath, ''1 new pages discovered'')"
    by code_simp
  have 4: "snd (updateSkill demoEnv demoFiles)
        (demoSkillPath @ [''.backups'', ''backup-2025-10-24'', ''SKILL.md''])
        = Some (File ''skill v1'')" by code_simp
  have 5: "backupClock demoEnvLater = ''2025-10-24T17:30:00.000Z''" by code_simp
  have 6: "fst (updateSkill demoEnvLater (snd (updateSkill demoEnv demoFiles)))
        = Inr (demoSkillPath, ''No significant changes detected'')" by code_simp
  have 7: "snd (updateSkill demoEnvLater (snd (updateSkill demoEnv demoFiles)))
        (demoSkillPath @ [''SKILL.md''])
        = Some (File ''skill v1.2.0'')" by code_simp
  have 8: "snd (updateSkill demoEnvLater (snd (updateSkill demoEnv demoFiles)))
        (demoSkillPath @ [''.backups'', ''backup-2025-10-24'', ''SKILL.md''])
        = Some (File ''skill v1.1.0'')" by code_simp
  from 1 2 3 4 5 6 7 8 show ?thesis by blast
qed

text \<open>
  Claim C10. The merged object holds the very page and form references of the new
  analysis. When the existing knowledge has a history array, the merged object holds that
  same array, and after the call the array, read through the reference of the existing
  knowledge, has the new entry at its end. When the two arguments share no object and the
  new analysis lists each object once, the page and form objects of the new analysis,
  read after the call through the same references, are the merged pages and forms:
  \<^verbatim>\<open>customData\<close> and \<^verbatim>\<open>customTestData\<close> have been written to them, and every other object
  is as it was.
\<close>

theorem merge_mutates_arguments:
  assumes "mergeKnowledgeH P now existing newAnalysis h = (Inr merged, h')"
  shows "pages merged = pages newAnalysis
       \<and> forms merged = forms newAnalysis
       \<and> (\<forall>r old. updateHistory existing = Some r \<and> historyArrs h r = Some old
            \<longrightarrow> updateHistory merged = Some r
                \<and> (\<exists>entry. historyArrs h' r = Some (old @ [entry])
                     \<and> date entry = now
                     \<and> previousVersion entry = version existing
                     \<and> newVersion entry = version merged))
       \<and> (updateHistory existing = None
            \<longrightarrow> updateHistory merged = Some (nextRef h)
                \<and> (\<exists>entry. historyArrs h' (nextRef h) = Some [entry]))
       \<and> userFlows merged = userFlows newAnalysis
       \<and> others merged = others newAnalysis
       \<and> (separate existing newAnalysis \<longrightarrow>
            (\<forall>q. pageObjs h' q
                  = (case categoryOf (pages newAnalysis) q of
                       None \<Rightarrow> pageObjs h q
                     | Some category \<Rightarrow>
                         map_option
                           (mergePage (existingMap
                              (derefPages h (categoryPages (pages existing) category))))
                           (pageObjs h q)))
            \<and> (\<forall>q. formObjs h' q
                  = (if q \<in> set (forms newAnalysis)
                     then map_option (mergeForm P (derefForms h (forms existing))) (formObjs h q)
                     else formObjs h q)))"
proof -
  let ?h1 = "mergePagesH (pages existing) (pages newAnalysis) h"
  let ?h2 = "mergeFormsH P (forms existing) (forms newAnalysis) ?h1"
  obtain historyRef h3 where ha: "historyArray (updateHistory existing) ?h2 = (historyRef, h3)"
    by (cases "historyArray (updateHistory existing) ?h2")
  from mergeKnowledgeH_result [OF assms] ha obtain entry where
    m: "merged = newAnalysis\<lparr> version := bumpVersion (version existing),
                                 removedForms := removedForms merged,
                                 updateHistory := Some historyRef \<rparr>"
    and e: "previousVersion entry = version existing"
      "newVersion entry = bumpVersion (version existing)" "date entry = now"
    and h': "h' = pushHistory historyRef entry h3"
    by auto
  have objs: "pageObjs h' = pageObjs ?h2" "formObjs h' = formObjs ?h2"
    using ha by (auto simp: h' pushHistory_def historyArray_def split: option.splits)
  have p2: "pageObjs ?h2 = pageObjs ?h1" by (simp add: mergeFormsH_frame)
  have f1: "formObjs ?h1 = formObjs h" by (simp add: mergePagesH_frame)
  have hist2: "historyArrs ?h2 = historyArrs h"
    by (simp add: mergeFormsH_frame mergePagesH_frame)
  have a: "pages merged = pages newAnalysis" "forms merged = forms newAnalysis"
    and v: "version merged = bumpVersion (version existing)"
    and u: "updateHistory merged = Some historyRef"
    by (subst m, simp)+
  have b: "\<forall>r old. updateHistory existing = Some r \<and> historyArrs h r = Some old
            \<longrightarrow> updateHistory merged = Some r
                \<and> (\<exists>entry. historyArrs h' r = Some (old @ [entry])
                     \<and> date entry = now
                     \<and> previousVersion entry = version existing
                     \<and> newVersion entry = version merged)"
  proof (intro allI impI, elim conjE)
    fix r old assume r: "updateHistory existing = Some r" and old: "historyArrs h r = Some old"
    from ha r have "historyRef = r" "h3 = ?h2" by (simp_all add: historyArray_def)
    with old hist2 have "historyArrs h' r = Some (old @ [entry])"
      by (simp add: h' pushHistory_def)
    with e \<open>historyRef = r\<close>
    show "updateHistory merged = Some r
                \<and> (\<exists>entry. historyArrs h' r = Some (old @ [entry])
                     \<and> date entry = now
                     \<and> previousVersion entry = version existing
                     \<and> newVersion entry = version merged)"
      by (auto simp: u v)
  qed
  have n2: "nextRef ?h2 = nextRef h"
    by (simp add: mergeFormsH_frame mergePagesH_frame)
  have b': "updateHistory existing = None
            \<longrightarrow> updateHistory merged = Some (nextRef h)
                \<and> (\<exists>entry. historyArrs h' (nextRef h) = Some [entry])"
  proof
    assume "updateHistory existing = None"
    with ha n2 have "historyRef = nextRef h"
      and "h3 = ?h2\<lparr>historyArrs := (historyArrs ?h2)(nextRef h \<mapsto> []), nextRef := nextRef h + 1\<rparr>"
      by (auto simp: historyArray_def)
    then show "updateHistory merged = Some (nextRef h)
                \<and> (\<exists>entry. historyArrs h' (nextRef h) = Some [entry])"
      by (simp add: u h' pushHistory_def)
  qed
  have a': "userFlows merged = userFlows newAnalysis" "others merged = others newAnalysis"
    by (subst m, simp)+
  have c: "separate existing newAnalysis \<longrightarrow>
            (\<forall>q. pageObjs h' q
                  = (case categoryOf (pages newAnalysis) q of
                       None \<Rightarrow> pageObjs h q
                     | Some category \<Rightarrow>
                         map_option
                           (mergePage (existingMap
                              (derefPages h (categoryPages (pages existing) category))))
                           (pageObjs h q)))
            \<and> (\<forall>q. formObjs h' q
                  = (if q \<in> set (forms newAnalysis)
                     then map_option (mergeForm P (derefForms h (forms existing))) (formObjs h q)
                     else formObjs h q))"
  proof
    assume s: "separate existing newAnalysis"
    then have d: "distinct (allRefs (pages newAnalysis))"
      "set (allRefs (pages newAnalysis)) \<inter> set (allRefs (pages existing)) = {}"
      "distinct (forms newAnalysis)" "set (forms newAnalysis) \<inter> set (forms existing) = {}"
      by (simp_all add: separate_def)
    have df: "derefForms ?h1 (forms existing) = derefForms h (forms existing)"
      by (simp add: derefForms_def f1)
    have pg: "\<forall>q. pageObjs h' q
                  = (case categoryOf (pages newAnalysis) q of
                       None \<Rightarrow> pageObjs h q
                     | Some category \<Rightarrow>
                         map_option
                           (mergePage (existingMap
                              (derefPages h (categoryPages (pages existing) category))))
                           (pageObjs h q))"
      by (simp only: objs p2 mergePagesH_pages [OF d(1,2)]) simp
    have fm: "\<forall>q. formObjs h' q
                  = (if q \<in> set (forms newAnalysis)
                     then map_option (mergeForm P (derefForms h (forms existing))) (formObjs h q)
                     else formObjs h q)"
      by (simp only: objs mergeFormsH_forms [OF d(3,4)] df f1) simp
    from pg fm show "(\<forall>q. pageObjs h' q
                  = (case categoryOf (pages newAnalysis) q of
                       None \<Rightarrow> pageObjs h q
                     | Some category \<Rightarrow>
                         map_option
                           (mergePage (existingMap
                              (derefPages h (categoryPages (pages existing) category))))
                           (pageObjs h q)))
            \<and> (\<forall>q. formObjs h' q
                  = (if q \<in> set (forms newAnalysis)
                     then map_option (mergeForm P (derefForms h (forms existing))) (formObjs h q)
                     else formObjs h q))"
      by blast
  qed
  from a a' b b' c show ?thesis by blast
qed

theorem merge_mutates_arguments_witness:
  "mergeKnowledgeH demoParser demoNow demoExistingRef demoFreshRef demoHeap
     = (Inr demoMergedRef, demoHeapAfter)
   \<and> pages demoMergedRef = pages demoFreshRef
   \<and> forms demoMergedRef = forms demoFreshRef
   \<and> updateHistory demoExistingRef = Some 7
   \<and> updateHistory demoMergedRef = Some 7
   \<and> historyArrs demoHeapAfter 7
       = Some [\<lparr> date = ''2025-10-01T08:00:00.000Z'', previousVersion = ''1.0.0'',
                  newVersion = ''1.1.0'', pagesAdded = 0, formsAdded = 0, flowsAdded = 0 \<rparr>,
               \<lparr> date = demoNow, previousVersion = ''1.1.0'', newVersion = ''1.2.0'',
                  pagesAdded = 1, formsAdded = 0, flowsAdded = 0 \<rparr>]
   \<and> separate demoExistingRef demoFreshRef
   \<and> pageObjs demoHeap 11 = Some (mkPage ''/login'' None)
   \<and> pageObjs demoHeapAfter 11 = Some (mkPage ''/login'' (Some noteX))
   \<and> formObjs demoHeapAfter 15
       = Some (mkForm ''http://app.test/login'' (Some (JObj [(''email'', JStr ''qa@app.test'')])))"
proof -
  have r: "fst (mergeKnowledgeH demoParser demoNow demoExistingRef demoFreshRef demoHeap)
             = Inr demoMergedRef"
    by code_simp
  have m: "mergeKnowledgeH demoParser demoNow demoExistingRef demoFreshRef demoHeap
     = (Inr demoMergedRef, demoHeapAfter)"
    using r by (simp add: demoHeapAfter_def prod_eq_iff)
  note mut = merge_mutates_arguments [OF m]
  have u: "updateHistory demoExistingRef = Some 7" by code_simp
  have old: "historyArrs demoHeap 7
       = Some [\<lparr> date = ''2025-10-01T08:00:00.000Z'', previousVersion = ''1.0.0'',
                  newVersion = ''1.1.0'', pagesAdded = 0, formsAdded = 0, flowsAdded = 0 \<rparr>]"
    by code_simp
  have new: "historyArrs demoHeapAfter 7
       = Some [\<lparr> date = ''2025-10-01T08:00:00.000Z'', previousVersion = ''1.0.0'',
                  newVersion = ''1.1.0'', pagesAdded = 0, formsAdded = 0, flowsAdded = 0 \<rparr>,
               \<lparr> date = demoNow, previousVersion = ''1.1.0'', newVersion = ''1.2.0'',
                  pagesAdded = 1, formsAdded = 0, flowsAdded = 0 \<rparr>]"
    by code_simp
  have s: "separate demoExistingRef demoFreshRef" by code_simp
  have c: "categoryOf (pages demoFreshRef) 11 = Some ''auth''" by code_simp
  have e: "existingMap (derefPages demoHeap (categoryPages (pages demoExistingRef) ''auth'')) ''/login''
             = Some (mkPage ''/login'' (Some noteX))" by code_simp
  have b: "pageObjs demoHeap 11 = Some (mkPage ''/login'' None)" by code_simp
  have mp: "mergePage (existingMap (derefPages demoHeap (categoryPages (pages demoExistingRef) ''auth'')))
              (mkPage ''/login'' None) = mkPage ''/login'' (Some noteX)"
    by code_simp
  from mut s have "pageObjs demoHeapAfter 11
        = (case categoryOf (pages demoFreshRef) 11 of
             None \<Rightarrow> pageObjs demoHeap 11
           | Some category \<Rightarrow>
               map_option (mergePage (existingMap
                  (derefPages demoHeap (categoryPages (pages demoExistingRef) category))))
                 (pageObjs demoHeap 11))"
    by blast
  then have a: "pageObjs demoHeapAfter 11 = Some (mkPage ''/login'' (Some noteX))"
    by (simp add: c b mp)
  have f: "formObjs demoHeapAfter 15
       = Some (mkForm ''http://app.test/login'' (Some (JObj [(''email'', JStr ''qa@app.test'')])))"
    by code_simp
  from mut have "pages demoMergedRef = pages demoFreshRef" "forms demoMergedRef = forms demoFreshRef"
    by blast+
  moreover from mut u old have "updateHistory demoMergedRef = Some 7" by blast
  ultimately show ?thesis using m u new s b a f by blast
qed

end
